theory Spec2Isabelle
  imports Main "HOL-Library.AList" "HOL-Library.Sublist"
begin

section \<open>Python strings and dictionaries\<close>

text \<open>
  A Python \<open>str\<close> is modelled as a \<open>string\<close> whose characters are the code points
  below 256. A \<open>dict\<close> is an association list with distinct keys in insertion order:
  \<open>d[k] = v\<close> is \<open>AList.update k v d\<close> (the value is replaced in place when the key is
  present, the pair is appended otherwise), \<open>k in d\<close> and \<open>d[k]\<close> read \<open>map_of d k\<close>.
\<close>

definition isspace :: "char \<Rightarrow> bool" where
  \<comment> \<open>the code points below 256 that \<open>str.strip()\<close> removes\<close>
  "isspace c = (c \<in> set [CHR 0x09, CHR 0x0A, CHR 0x0B, CHR 0x0C, CHR 0x0D, CHR 0x1C,
                           CHR 0x1D, CHR 0x1E, CHR 0x1F, CHR 0x20, CHR 0x85, CHR 0xA0])"

definition isupper :: "char \<Rightarrow> bool" where
  \<comment> \<open>\<open>A\<close>..\<open>Z\<close> and the upper-case letters of Latin-1 (192..222 without the sign 215)\<close>
  "isupper c = (let n = (of_char c :: nat)
                in (65 \<le> n \<and> n \<le> 90) \<or> (192 \<le> n \<and> n \<le> 222 \<and> n \<noteq> 215))"

fun add32 :: "char \<Rightarrow> char" where
  \<comment> \<open>on an upper-case letter bit 5 is clear, so setting it adds 32 to the code point\<close>
  "add32 (Char b0 b1 b2 b3 b4 b5 b6 b7) = Char b0 b1 b2 b3 b4 True b6 b7"

definition lower_char :: "char \<Rightarrow> char" where
  "lower_char c = (if isupper c then add32 c else c)"

definition lower :: "string \<Rightarrow> string" where
  \<comment> \<open>\<open>s.lower()\<close> on a string of code points below 256, where it maps character by
      character; on other strings \<open>str.lower()\<close> depends on the context of a character
      (the final sigma) and may change the length, which is outside this model\<close>
  "lower s = map lower_char s"

definition startswith :: "string \<Rightarrow> string \<Rightarrow> bool" where
  \<comment> \<open>\<open>s.startswith(p)\<close>\<close>
  "startswith s p = prefix p s"

definition lstrip_chars :: "string \<Rightarrow> string \<Rightarrow> string" where
  \<comment> \<open>\<open>s.lstrip(chars)\<close>\<close>
  "lstrip_chars s chars = dropWhile (\<lambda>c. c \<in> set chars) s"

definition strip :: "string \<Rightarrow> string" where
  \<comment> \<open>\<open>s.strip()\<close>\<close>
  "strip s = rev (dropWhile isspace (rev (dropWhile isspace s)))"

fun split_nn :: "string \<Rightarrow> string list" where
  \<comment> \<open>\<open>s.split('\n\n')\<close>: the separators are found from the left, without overlap;
      the result is never the empty list, so the first branch of the \<open>case\<close> is never taken\<close>
  "split_nn [] = [[]]"
| "split_nn [c] = [[c]]"
| "split_nn (c # d # cs) =
     (if c = CHR 0x0A \<and> d = CHR 0x0A then [] # split_nn cs
      else (case split_nn (d # cs) of
              [] \<Rightarrow> [[c]]
            | b # bs \<Rightarrow> (c # b) # bs))"

fun join_nn :: "string list \<Rightarrow> string" where
  \<comment> \<open>\<open>'\n\n'.join(xs)\<close>\<close>
  "join_nn [] = []"
| "join_nn [x] = x"
| "join_nn (x # y # ys) = x @ [CHR 0x0A, CHR 0x0A] @ join_nn (y # ys)"

fun str_find_from :: "int \<Rightarrow> string \<Rightarrow> string \<Rightarrow> int" where
  "str_find_from i [] sub = (if sub = [] then i else - 1)"
| "str_find_from i (c # cs) sub =
     (if prefix sub (c # cs) then i else str_find_from (i + 1) cs sub)"

definition str_find :: "string \<Rightarrow> string \<Rightarrow> int" where
  \<comment> \<open>\<open>s.find(sub)\<close>: the lowest index where \<open>sub\<close> occurs, \<open>-1\<close> when it does not\<close>
  "str_find s sub = str_find_from 0 s sub"

section \<open>Section segmentation: \<open>ContentProcessor.chunk_content\<close>\<close>

record chunk_state =
  sections :: "(string \<times> string) list"
  current_section :: string
  current_content :: "string list"

definition save_section :: "chunk_state \<Rightarrow> (string \<times> string) list" where
  \<comment> \<open>\<open>sections[current_section] = '\n\n'.join(current_content)\<close>, under
      \<open>if current_content:\<close> (a non-empty list)\<close>
  "save_section st =
     (if current_content st \<noteq> []
      then AList.update (current_section st) (join_nn (current_content st)) (sections st)
      else sections st)"

definition chunk_step :: "chunk_state \<Rightarrow> string \<Rightarrow> chunk_state" where
  \<comment> \<open>the body of \<open>for paragraph in paragraphs\<close>\<close>
  "chunk_step st paragraph =
     (if startswith paragraph ''#''
      then \<lparr> sections = save_section st,
             current_section = strip (lstrip_chars paragraph ''#''),
             current_content = [] \<rparr>
      else st \<lparr> current_content := current_content st @ [paragraph] \<rparr>)"

definition chunk_init :: chunk_state where
  "chunk_init = \<lparr> sections = [], current_section = ''Introduction'', current_content = [] \<rparr>"

definition chunk_paragraphs :: "string list \<Rightarrow> (string \<times> string) list" where
  "chunk_paragraphs paragraphs = save_section (foldl chunk_step chunk_init paragraphs)"

definition chunk_content :: "string \<Rightarrow> (string \<times> string) list" where
  "chunk_content markdown_text = chunk_paragraphs (split_nn markdown_text)"

text \<open>Vocabulary of the segmentation claims.\<close>

definition is_header :: "string \<Rightarrow> bool" where
  \<comment> \<open>the test \<open>paragraph.startswith('#')\<close> of the loop\<close>
  "is_header paragraph = startswith paragraph ''#''"

definition section_name :: "string \<Rightarrow> string" where
  \<comment> \<open>the name a header block normalizes to: \<open>paragraph.lstrip('#').strip()\<close>\<close>
  "section_name paragraph = strip (lstrip_chars paragraph ''#'')"

definition non_header_blocks :: "string \<Rightarrow> nat" where
  \<comment> \<open>the number of non-header blocks of the input\<close>
  "non_header_blocks markdown_text =
     length (filter (\<lambda>p. \<not> is_header p) (split_nn markdown_text))"

definition body_blocks_emitted :: "(string \<times> string) list \<Rightarrow> nat" where
  \<comment> \<open>the number of blocks in the bodies of the output: a body is its blocks joined by
      blank lines, so its blocks are read back by splitting it\<close>
  "body_blocks_emitted out = sum_list (map (\<lambda>(name, body). length (split_nn body)) out)"

fun has_sep :: "string \<Rightarrow> bool" where
  \<comment> \<open>the text contains the separator \<open>'\n\n'\<close>\<close>
  "has_sep (c # d # cs) = ((c = CHR 0x0A \<and> d = CHR 0x0A) \<or> has_sep (d # cs))"
| "has_sep _ = False"

definition notrail :: "string \<Rightarrow> bool" where
  \<comment> \<open>the text does not end in a newline\<close>
  "notrail b = (b = [] \<or> last b \<noteq> CHR 0x0A)"

fun stored_names :: "string \<Rightarrow> bool \<Rightarrow> string list \<Rightarrow> string list" where
  \<comment> \<open>the names under which the loop and the final save store a body, in this order,
      from the current section name and whether blocks are pending for it: a body is
      stored at a header and at the end of the input when blocks are pending\<close>
  "stored_names current pending [] = (if pending then [current] else [])"
| "stored_names current pending (p # ps) =
     (if is_header p
      then (if pending then [current] else []) @ stored_names (section_name p) False ps
      else stored_names current True ps)"

section \<open>Sample aggregation: \<open>SemanticAnalyzer.analyze_content\<close>\<close>

record BiasInstance =
  rationale :: string
  bias_type :: string
  biased_phrase :: string
  affected_stakeholder :: string

record SemanticAnalysis =
  methodology :: string
  detected_biases :: "BiasInstance list"

record BiasInstanceWithMetadata =
  bias_id :: int
  bias_instance :: BiasInstance

record BiasPhraseMetadata =
  index :: int
  occurrence_count :: int
  bias_phrase :: string
  bias_instances :: "int list"

text \<open>
  An exception leaves \<open>analyze_content\<close> at once: the method has no \<open>try\<close>. The call of
  the model may raise (\<open>OracleError\<close>), and a reply that could not be parsed has
  \<open>parsed = None\<close>, on which \<open>analysis.detected_biases\<close> raises \<open>AttributeError\<close>.
\<close>

datatype error = OracleError string | AttributeError

text \<open>
  The model is outside the program: \<open>orc i content\<close> is what the \<open>i\<close>-th call of
  \<open>chat.completions.parse\<close> on \<open>content\<close> gives, an exception or
  \<open>response.choices[0].message.parsed\<close>. The calls are numbered since the model need not
  answer twice alike.
\<close>

type_synonym sample_oracle = "nat \<Rightarrow> string \<Rightarrow> error + SemanticAnalysis option"

text \<open>
  The locals of the method. \<open>found_instances\<close> is the local list \<open>bias_instances\<close>, renamed
  since a bucket has a field of that name.
\<close>

record analyzer_state =
  analyses :: "SemanticAnalysis option list"
  found_instances :: "BiasInstanceWithMetadata list"
  bias_phrase_heatmap :: "(string \<times> BiasPhraseMetadata) list"
  bias_index :: int

definition analyzer_init :: analyzer_state where
  "analyzer_init = \<lparr> analyses = [], found_instances = [], bias_phrase_heatmap = [],
                      bias_index = 0 \<rparr>"

definition new_bucket :: "int \<Rightarrow> string \<Rightarrow> int \<Rightarrow> BiasPhraseMetadata" where
  "new_bucket content_index phrase i =
     \<lparr> index = content_index, occurrence_count = 1, bias_phrase = phrase,
       bias_instances = [i] \<rparr>"

definition join_bucket :: "BiasPhraseMetadata \<Rightarrow> int \<Rightarrow> BiasPhraseMetadata" where
  \<comment> \<open>\<open>occurrence_count += 1; bias_instances.append(bias_index)\<close>\<close>
  "join_bucket b i =
     b \<lparr> occurrence_count := occurrence_count b + 1, bias_instances := bias_instances b @ [i] \<rparr>"

definition record_bias :: "string \<Rightarrow> analyzer_state \<Rightarrow> BiasInstance \<Rightarrow> analyzer_state" where
  \<comment> \<open>the body of \<open>for bias in analysis.detected_biases\<close>\<close>
  "record_bias content st bias =
     (let content_index = str_find content (biased_phrase bias);
          key = lower (biased_phrase bias);
          heatmap = bias_phrase_heatmap st
      in if content_index \<noteq> - 1
         then st \<lparr> found_instances := found_instances st
                      @ [\<lparr> bias_id = bias_index st, bias_instance = bias \<rparr>],
                   bias_phrase_heatmap :=
                     (if map_of heatmap key = None
                         \<or> index (the (map_of heatmap key)) \<noteq> content_index
                      then AList.update key
                             (new_bucket content_index (biased_phrase bias) (bias_index st))
                             heatmap
                      else AList.update key
                             (join_bucket (the (map_of heatmap key)) (bias_index st))
                             heatmap),
                   bias_index := bias_index st + 1 \<rparr>
         else st)"

definition run_sample :: "sample_oracle \<Rightarrow> string \<Rightarrow> analyzer_state \<Rightarrow> nat \<Rightarrow> error + analyzer_state" where
  \<comment> \<open>the body of \<open>for i in range(runs)\<close>\<close>
  "run_sample orc content st i =
     (case orc i content of
        Inl e \<Rightarrow> Inl e
      | Inr analysis \<Rightarrow>
          (case analysis of
             None \<Rightarrow> Inl AttributeError
           | Some a \<Rightarrow>
               Inr (foldl (record_bias content)
                      (st \<lparr> analyses := analyses st @ [analysis] \<rparr>)
                      (detected_biases a))))"

fun run_samples :: "sample_oracle \<Rightarrow> string \<Rightarrow> analyzer_state \<Rightarrow> nat list \<Rightarrow> error + analyzer_state" where
  "run_samples orc content st [] = Inr st"
| "run_samples orc content st (i # is) =
     (case run_sample orc content st i of
        Inl e \<Rightarrow> Inl e
      | Inr st' \<Rightarrow> run_samples orc content st' is)"

definition analyze_content ::
  "sample_oracle \<Rightarrow> string \<Rightarrow> int \<Rightarrow>
   error + BiasInstanceWithMetadata list \<times> (string \<times> BiasPhraseMetadata) list" where
  \<comment> \<open>\<open>range(runs)\<close> is empty when \<open>runs \<le> 0\<close>\<close>
  "analyze_content orc content runs =
     (case run_samples orc content analyzer_init [0 ..< nat runs] of
        Inl e \<Rightarrow> Inl e
      | Inr st \<Rightarrow> Inr (found_instances st, bias_phrase_heatmap st))"

text \<open>Vocabulary of the aggregation claims.\<close>

definition bucket_ids :: "(string \<times> BiasPhraseMetadata) list \<Rightarrow> int list" where
  \<comment> \<open>the contribution lists of all buckets of a heatmap, one after the other\<close>
  "bucket_ids heatmap = concat (map (\<lambda>(key, b). bias_instances b) heatmap)"

definition resolves :: "string \<Rightarrow> BiasInstance \<Rightarrow> bool" where
  \<comment> \<open>the phrase of the finding occurs in the content\<close>
  "resolves content bias = (str_find content (biased_phrase bias) \<noteq> - 1)"

definition reported_findings :: "sample_oracle \<Rightarrow> string \<Rightarrow> nat list \<Rightarrow> BiasInstance list" where
  \<comment> \<open>the findings of the given calls of the model, in the order they are reported\<close>
  "reported_findings orc content js =
     concat (map (\<lambda>i. case orc i content of
                         Inr (Some a) \<Rightarrow> detected_biases a
                       | _ \<Rightarrow> []) js)"

definition counts_match :: "(string \<times> BiasPhraseMetadata) list \<Rightarrow> bool" where
  "counts_match heatmap =
     (\<forall>(key, b) \<in> set heatmap. occurrence_count b = int (length (bias_instances b)))"

definition ids_consecutive :: "analyzer_state \<Rightarrow> bool" where
  "ids_consecutive st =
     (bias_index st = int (length (found_instances st)) \<and>
      map bias_id (found_instances st) = map int [0 ..< length (found_instances st)])"

definition ids_fresh :: "analyzer_state \<Rightarrow> bool" where
  "ids_fresh st =
     (0 \<le> bias_index st \<and> distinct (bucket_ids (bias_phrase_heatmap st)) \<and>
      (\<forall>i \<in> set (bucket_ids (bias_phrase_heatmap st)). 0 \<le> i \<and> i < bias_index st))"

definition finding_key :: "BiasInstanceWithMetadata list \<Rightarrow> nat \<Rightarrow> string" where
  \<comment> \<open>the heatmap key of the \<open>i\<close>-th returned finding\<close>
  "finding_key found i = lower (biased_phrase (bias_instance (found ! i)))"

definition finding_offset :: "string \<Rightarrow> BiasInstanceWithMetadata list \<Rightarrow> nat \<Rightarrow> int" where
  \<comment> \<open>the offset the \<open>i\<close>-th returned finding resolves to\<close>
  "finding_offset content found i = str_find content (biased_phrase (bias_instance (found ! i)))"

definition superseded :: "string \<Rightarrow> BiasInstanceWithMetadata list \<Rightarrow> nat \<Rightarrow> bool" where
  \<comment> \<open>a later returned finding has the same key and resolves to another offset\<close>
  "superseded content found i =
     list_ex (\<lambda>j. finding_key found j = finding_key found i \<and>
                   finding_offset content found j \<noteq> finding_offset content found i)
       [Suc i ..< length found]"

definition bucket_tracks ::
  "string \<Rightarrow> BiasInstanceWithMetadata list \<Rightarrow> string \<Rightarrow> BiasPhraseMetadata \<Rightarrow> bool" where
  \<comment> \<open>every finding listed in the bucket has the key and the offset of the bucket\<close>
  "bucket_tracks content found key b =
     (\<forall>i \<in> set (bias_instances b).
        0 \<le> i \<and> i < int (length found) \<and>
        finding_key found (nat i) = key \<and> finding_offset content found (nat i) = index b)"

definition ids_tracked :: "string \<Rightarrow> analyzer_state \<Rightarrow> bool" where
  \<comment> \<open>the ids in the buckets are those of the findings that are not superseded\<close>
  "ids_tracked content st =
     (bias_index st = int (length (found_instances st)) \<and>
      (\<forall>(key, b) \<in> set (bias_phrase_heatmap st). bucket_tracks content (found_instances st) key b) \<and>
      (\<forall>i < length (found_instances st).
         (int i \<in> set (bucket_ids (bias_phrase_heatmap st)))
         = (\<not> superseded content (found_instances st) i)))"

definition ids_settled :: "string \<Rightarrow> analyzer_state \<Rightarrow> bool" where
  "ids_settled content st =
     (ids_tracked content st \<and> ids_fresh st \<and> distinct (map fst (bias_phrase_heatmap st)))"



definition single_sample_buckets :: "string \<Rightarrow> string set \<Rightarrow> analyzer_state \<Rightarrow> bool" where
  \<comment> \<open>while one sample is recorded: every bucket was created by a phrase seen so far
      and nothing has joined it\<close>
  "single_sample_buckets content seen st =
     (\<forall>(key, b) \<in> set (bias_phrase_heatmap st).
        occurrence_count b = 1 \<and> key = lower (bias_phrase b) \<and>
        index b = str_find content (bias_phrase b) \<and> index b \<noteq> - 1 \<and>
        bias_phrase b \<in> seen)"



section \<open>Applying the corrections: \<open>Investigator.create_final_content\<close>\<close>

text \<open>
  The classes of \<open>main.py\<close>. Its \<open>BiasInstance\<close> is not the one of \<open>semantic.py\<close>, so it
  and its fields carry other names here.
\<close>

record SuggestedCorrection =
  correction_rationale :: string
  text_added :: string
  text_removed :: string

record ExpertBiasInstance =
  expert_rationale :: string
  expert_bias_type :: string
  expert_affected_stakeholder :: string
  bias_example :: string
  suggested_correction :: SuggestedCorrection

record PassageAnalysis =
  stakeholders :: "string list"
  passage_bias_instance :: "ExpertBiasInstance list"
  executive_summary :: string

record FinalContent =
  final_content :: string

record Investigator =
  system_prompt :: string
  chat_history :: "string list"

record message =
  msg_role :: string
  msg_content :: string

text \<open>
  The language model is outside the program: \<open>model messages\<close> is what
  \<open>chat.completions.parse(messages=\<dots>, response_format=FinalContent)\<close> gives, an exception
  or \<open>response.choices[0].message.parsed\<close>. \<open>render\<close> is Python's formatting of the list
  of corrections inside the f-string.
\<close>

type_synonym chat_model = "message list \<Rightarrow> error + FinalContent option"

definition indent :: string where
  \<comment> \<open>the 28 blanks in front of every non-empty line of the f-string\<close>
  "indent = replicate 28 CHR 0x20"

definition final_prompt :: "string \<Rightarrow> string \<Rightarrow> string" where
  \<comment> \<open>the f-string of the last message, line by line as it stands in the source:
      it opens with a newline, its lines keep their indentation, and it closes with the
      24 blanks in front of the closing quotes\<close>
  \<open>final_prompt corrections content =
     ''\<newline>''
     @ indent @ ''Now that you have decided on the suggested corrections, please apply them to the content. When you apply the corrections be sure to apply them in the following way:\<newline>''
     @ ''\<newline>''
     @ indent @ ''Example:\<newline>''
     @ indent @ ''Original text: "The conflict began in 1948."\<newline>''
     @ indent @ ''\<newline>''
     @ indent @ ''SuggestedCorrection:\<newline>''
     @ indent @ ''text_added: "following the UN partition plan"\<newline>''
     @ indent @ ''text_removed: "in"\<newline>''
     @ indent @ ''\<newline>''
     @ indent @ ''Modified text: "The conflict began [following the UN partition plan]."\<newline>''
     @ ''\<newline>''
     @ indent @ ''Apply all corrections to the content maintaining proper grammar and flow.\<newline>''
     @ ''\<newline>''
     @ indent @ ''Here is a list of the suggested corrections:\<newline>''
     @ indent @ corrections @ ''\<newline>''
     @ ''\<newline>''
     @ indent @ ''Here is the content:\<newline>''
     @ indent @ content @ ''\<newline>''
     @ replicate 24 CHR 0x20\<close>

definition final_messages ::
  "(ExpertBiasInstance list \<Rightarrow> string) \<Rightarrow> Investigator \<Rightarrow> PassageAnalysis \<Rightarrow> string \<Rightarrow> message list" where
  "final_messages render self passage_analysis content =
     [\<lparr> msg_role = ''system'', msg_content = system_prompt self \<rparr>]
     @ map (\<lambda>m. \<lparr> msg_role = ''user'', msg_content = m \<rparr>) (chat_history self)
     @ [\<lparr> msg_role = ''user'',
          msg_content = final_prompt (render (passage_bias_instance passage_analysis)) content \<rparr>]"

definition create_final_content ::
  "chat_model \<Rightarrow> (ExpertBiasInstance list \<Rightarrow> string) \<Rightarrow> Investigator \<Rightarrow> PassageAnalysis \<Rightarrow> string
   \<Rightarrow> error + FinalContent option" where
  \<comment> \<open>one call of the model; its parsed reply is returned as it is\<close>
  "create_final_content model render self passage_analysis content =
     model (final_messages render self passage_analysis content)"

text \<open>
  The edit applier as the specification words it, for comparison: an edit is anchored at
  the first occurrence of its removed text in the original document, and a batch is to be
  rejected when two such spans intersect.
\<close>

definition spec_resolved_span :: "string \<Rightarrow> SuggestedCorrection \<Rightarrow> (int \<times> int) option" where
  "spec_resolved_span document edit =
     (let start = str_find document (text_removed edit)
      in if start = - 1 then None else Some (start, start + int (length (text_removed edit))))"

definition spec_spans_overlap :: "(int \<times> int) option \<Rightarrow> (int \<times> int) option \<Rightarrow> bool" where
  "spec_spans_overlap s t =
     (case (s, t) of
        (Some (a, b), Some (c, d)) \<Rightarrow> a < d \<and> c < b
      | _ \<Rightarrow> False)"

fun spec_any_overlap :: "(int \<times> int) option list \<Rightarrow> bool" where
  \<comment> \<open>some two spans of the list intersect\<close>
  "spec_any_overlap [] = False"
| "spec_any_overlap (s # ss) = (list_ex (spec_spans_overlap s) ss \<or> spec_any_overlap ss)"

definition spec_batch_overlaps :: "string \<Rightarrow> PassageAnalysis \<Rightarrow> bool" where
  \<comment> \<open>some two edits of the batch have resolved spans that intersect\<close>
  "spec_batch_overlaps document passage_analysis =
     spec_any_overlap
       (map (\<lambda>b. spec_resolved_span document (suggested_correction b))
          (passage_bias_instance passage_analysis))"

section \<open>Example inputs\<close>

definition finding :: "string \<Rightarrow> BiasInstance" where
  "finding phrase =
     \<lparr> rationale = ''loaded wording'', bias_type = ''Framing Bias'',
       biased_phrase = phrase, affected_stakeholder = ''readers'' \<rparr>"

definition reply :: "string list \<Rightarrow> error + SemanticAnalysis option" where
  \<comment> \<open>a parsed reply of the model that reports the given phrases, in this order\<close>
  "reply phrases =
     Inr (Some \<lparr> methodology = ''close reading'', detected_biases = map finding phrases \<rparr>)"

definition failing_first :: sample_oracle where
  \<comment> \<open>the first call of the model fails, the later ones report one phrase\<close>
  "failing_first i content = (if i = 0 then Inl (OracleError ''timeout'') else reply [''bad''])"

definition correction :: "string \<Rightarrow> string \<Rightarrow> ExpertBiasInstance" where
  "correction removed added =
     \<lparr> expert_rationale = ''context'', expert_bias_type = ''Framing Bias'',
       expert_affected_stakeholder = ''readers'', bias_example = removed,
       suggested_correction =
         \<lparr> correction_rationale = ''context'', text_added = added, text_removed = removed \<rparr> \<rparr>"

definition overlapping_batch :: PassageAnalysis where
  \<comment> \<open>two corrections of \<open>The conflict began in 1948.\<close> whose removed texts share \<open>in\<close>\<close>
  "overlapping_batch =
     \<lparr> stakeholders = [''readers''],
       passage_bias_instance = [correction ''began in'' ''started in'', correction ''in 1948'' ''around 1948''],
       executive_summary = ''two corrections'' \<rparr>"

section \<open>Evaluation on concrete inputs\<close>

lemmas segment_eval =
  chunk_content_def chunk_paragraphs_def chunk_init_def chunk_step_def save_section_def
  startswith_def strip_def lstrip_chars_def isspace_def is_header_def section_name_def
  non_header_blocks_def body_blocks_emitted_def

lemmas analyze_eval =
  analyze_content_def run_sample_def record_bias_def analyzer_init_def str_find_def
  lower_def lower_char_def isupper_def new_bucket_def join_bucket_def finding_def reply_def
  bucket_ids_def resolves_def reported_findings_def Let_def upt_rec

section \<open>Segmenting the empty document\<close>

text \<open>
  C5. The claim is that segmenting the empty document gives the empty mapping. The code
  splits \<open>''\<close> into the one paragraph \<open>''\<close>, which is not a header and is appended to
  the current content; the list \<open>['']\<close> is non-empty, so the final save stores the empty
  body under the default name. The result is the mapping with the single entry
  \<open>Introduction \<mapsto> ''\<close>; no exception is raised on the way.
\<close>

theorem chunk_content_empty_document:
  "chunk_content '''' = [(''Introduction'', '''')]"
  by (simp add: segment_eval)

section \<open>Splitting and joining on blank lines\<close>

lemma split_nn_ne: "split_nn s \<noteq> []"
  by (induction s rule: split_nn.induct) (auto split: list.splits)

lemma hd_split_nn:
  "split_nn (d # cs) = b # bs \<Longrightarrow>
   (b = [] \<and> d = CHR 0x0A \<and> bs \<noteq> []) \<or> (b \<noteq> [] \<and> hd b = d)"
  by (cases cs) (auto split: if_splits list.splits simp: split_nn_ne)

lemma split_nn_nosep: "b \<in> set (split_nn s) \<Longrightarrow> \<not> has_sep b"
proof (induction s arbitrary: b rule: split_nn.induct)
  case (3 c d cs)
  obtain x xs where e: "split_nn (d # cs) = x # xs"
    using split_nn_ne by (cases "split_nn (d # cs)") auto
  show ?case
  proof (cases "c = CHR 0x0A \<and> d = CHR 0x0A")
    case True
    with 3 show ?thesis by auto
  next
    case False
    from hd_split_nn[OF e] False have "\<not> has_sep (c # x)"
      using "3.IH"(2)[OF False, of x] e by (cases x) auto
    with "3.IH" "3.prems" False e show ?thesis by auto
  qed
qed auto

lemma split_nn_notrail: "b \<in> set (butlast (split_nn s)) \<Longrightarrow> notrail b"
proof (induction s arbitrary: b rule: split_nn.induct)
  case (3 c d cs)
  obtain x xs where e: "split_nn (d # cs) = x # xs"
    using split_nn_ne by (cases "split_nn (d # cs)") auto
  show ?case
  proof (cases "c = CHR 0x0A \<and> d = CHR 0x0A")
    case True
    with "3.IH"(1) "3.prems" show ?thesis by (auto simp: split_nn_ne notrail_def)
  next
    case False
    show ?thesis
    proof (cases "xs = []")
      case True
      with False e have "split_nn (c # d # cs) = [c # x]" by simp
      with "3.prems" show ?thesis by simp
    next
      case xs: False
      have "notrail x" using "3.IH"(2)[OF False, of x] e xs by simp
      with hd_split_nn[OF e] False have "notrail (c # x)"
        by (auto simp: notrail_def)
      moreover have "b' \<in> set (butlast xs) \<Longrightarrow> notrail b'" for b'
        using "3.IH"(2)[OF False, of b'] e xs by simp
      moreover have "split_nn (c # d # cs) = (c # x) # xs" using False e by simp
      ultimately show ?thesis using "3.prems" xs by auto
    qed
  qed
qed auto

lemma split_nn_block: "\<not> has_sep b \<Longrightarrow> split_nn b = [b]"
  by (induction b rule: has_sep.induct) auto

lemma split_nn_block_sep:
  "\<not> has_sep b \<Longrightarrow> notrail b \<Longrightarrow>
   split_nn (b @ CHR 0x0A # CHR 0x0A # rest) = b # split_nn rest"
  by (induction b rule: has_sep.induct) (auto simp: notrail_def)

lemma split_join:
  "bs \<noteq> [] \<Longrightarrow> \<forall>b\<in>set bs. \<not> has_sep b \<Longrightarrow> \<forall>b\<in>set (butlast bs). notrail b \<Longrightarrow>
   split_nn (join_nn bs) = bs"
proof (induction bs rule: join_nn.induct)
  case 1
  then show ?case by simp
next
  case (2 x)
  then show ?case by (simp add: split_nn_block)
next
  case (3 x y ys)
  then show ?case by (simp add: split_nn_block_sep)
qed

section \<open>Every body block is emitted once, unless a section is overwritten\<close>

lemma update_fresh: "k \<notin> fst ` set al \<Longrightarrow> AList.update k v al = al @ [(k, v)]"
  by (induction al) auto

lemma keys_save_section:
  "fst ` set (save_section st)
   = fst ` set (sections st) \<union> (if current_content st \<noteq> [] then {current_section st} else {})"
  by (simp add: save_section_def AList.dom_update)

lemma count_save_section:
  assumes "current_content st \<noteq> [] \<longrightarrow> current_section st \<notin> fst ` set (sections st)"
    and "\<forall>b\<in>set (current_content st). \<not> has_sep b"
    and "\<forall>b\<in>set (butlast (current_content st)). notrail b"
  shows "body_blocks_emitted (save_section st)
         = body_blocks_emitted (sections st) + length (current_content st)"
  using assms
  by (simp add: save_section_def body_blocks_emitted_def update_fresh split_join)

lemma count_fold:
  assumes "\<forall>b\<in>set (current_content st @ ps). \<not> has_sep b"
    and "\<forall>b\<in>set (butlast (current_content st @ ps)). notrail b"
    and "distinct (stored_names (current_section st) (current_content st \<noteq> []) ps)"
    and "set (stored_names (current_section st) (current_content st \<noteq> []) ps)
           \<inter> fst ` set (sections st) = {}"
  shows "body_blocks_emitted (save_section (foldl chunk_step st ps))
         = body_blocks_emitted (sections st) + length (current_content st)
           + length (filter (\<lambda>p. \<not> is_header p) ps)"
  using assms
proof (induction ps arbitrary: st)
  case Nil
  have "body_blocks_emitted (save_section st)
        = body_blocks_emitted (sections st) + length (current_content st)"
    using Nil by (intro count_save_section) (auto split: if_splits)
  then show ?case by simp
next
  case (Cons p ps)
  show ?case
  proof (cases "is_header p")
    case True
    let ?st = "\<lparr> sections = save_section st, current_section = section_name p,
                 current_content = [] \<rparr>"
    have step: "chunk_step st p = ?st"
      using True by (simp add: chunk_step_def is_header_def section_name_def)
    have names: "stored_names (current_section st) (current_content st \<noteq> []) (p # ps)
                 = (if current_content st \<noteq> [] then [current_section st] else [])
                   @ stored_names (section_name p) False ps"
      using True by simp
    have cc: "\<forall>b\<in>set (butlast (current_content st)). notrail b"
      using Cons.prems(2) by (auto simp: butlast_append dest: in_set_butlastD)
    have saved: "body_blocks_emitted (save_section st)
                 = body_blocks_emitted (sections st) + length (current_content st)"
      using Cons.prems(1,4) cc unfolding names
      by (intro count_save_section) (auto split: if_splits)
    have "body_blocks_emitted (save_section (foldl chunk_step ?st ps))
          = body_blocks_emitted (sections ?st) + length (current_content ?st)
            + length (filter (\<lambda>p. \<not> is_header p) ps)"
    proof (rule Cons.IH)
      show "\<forall>b\<in>set (current_content ?st @ ps). \<not> has_sep b"
        using Cons.prems(1) by simp
      show "\<forall>b\<in>set (butlast (current_content ?st @ ps)). notrail b"
        using Cons.prems(2) by (auto simp: butlast_append split: if_splits)
      show "distinct (stored_names (current_section ?st) (current_content ?st \<noteq> []) ps)"
        using Cons.prems(3) unfolding names by simp
      show "set (stored_names (current_section ?st) (current_content ?st \<noteq> []) ps)
              \<inter> fst ` set (sections ?st) = {}"
        using Cons.prems(3,4) unfolding names
        by (auto simp: keys_save_section split: if_splits)
    qed
    with step saved True show ?thesis by simp
  next
    case False
    let ?st = "st \<lparr> current_content := current_content st @ [p] \<rparr>"
    have step: "chunk_step st p = ?st"
      using False by (simp add: chunk_step_def is_header_def)
    have names: "stored_names (current_section st) (current_content st \<noteq> []) (p # ps)
                 = stored_names (current_section st) True ps"
      using False by simp
    have "body_blocks_emitted (save_section (foldl chunk_step ?st ps))
          = body_blocks_emitted (sections ?st) + length (current_content ?st)
            + length (filter (\<lambda>p. \<not> is_header p) ps)"
    proof (rule Cons.IH)
      show "\<forall>b\<in>set (current_content ?st @ ps). \<not> has_sep b"
        using Cons.prems(1) by simp
      show "\<forall>b\<in>set (butlast (current_content ?st @ ps)). notrail b"
        using Cons.prems(2) by simp
      show "distinct (stored_names (current_section ?st) (current_content ?st \<noteq> []) ps)"
        using Cons.prems(3) unfolding names by simp
      show "set (stored_names (current_section ?st) (current_content ?st \<noteq> []) ps)
              \<inter> fst ` set (sections ?st) = {}"
        using Cons.prems(4) unfolding names by simp
    qed
    with step False show ?thesis by simp
  qed
qed

text \<open>
  C6, as stated, fails: the document \<open># A / x / # A / y\<close> (blocks separated by blank
  lines) has two non-header blocks, and the second save under the name \<open>A\<close> replaces the
  first, so one body block is emitted.
\<close>

theorem block_count_counterexample:
  "non_header_blocks ''# A\<newline>\<newline>x\<newline>\<newline># A\<newline>\<newline>y'' = 2 \<and>
   chunk_content ''# A\<newline>\<newline>x\<newline>\<newline># A\<newline>\<newline>y'' = [(''A'', ''y'')] \<and>
   body_blocks_emitted (chunk_content ''# A\<newline>\<newline>x\<newline>\<newline># A\<newline>\<newline>y'') = 1"
  by (simp add: segment_eval)

text \<open>
  C6, amended: for every input document in which no section name is stored twice (the
  sections that have at least one body block carry pairwise distinct names, the default
  name \<open>Introduction\<close> of leading blocks included), the total number of body blocks
  emitted across all sections of the output equals the number of non-header blocks of
  the input.
\<close>

theorem segmentation_block_count:
  assumes "distinct (stored_names ''Introduction'' False (split_nn markdown_text))"
  shows "body_blocks_emitted (chunk_content markdown_text) = non_header_blocks markdown_text"
proof -
  have "body_blocks_emitted (save_section (foldl chunk_step chunk_init (split_nn markdown_text)))
        = body_blocks_emitted (sections chunk_init) + length (current_content chunk_init)
          + length (filter (\<lambda>p. \<not> is_header p) (split_nn markdown_text))"
  proof (rule count_fold)
    show "\<forall>b\<in>set (current_content chunk_init @ split_nn markdown_text). \<not> has_sep b"
      by (simp add: chunk_init_def split_nn_nosep)
    show "\<forall>b\<in>set (butlast (current_content chunk_init @ split_nn markdown_text)). notrail b"
      by (simp add: chunk_init_def split_nn_notrail)
    show "distinct (stored_names (current_section chunk_init)
                      (current_content chunk_init \<noteq> []) (split_nn markdown_text))"
      using assms by (simp add: chunk_init_def)
    show "set (stored_names (current_section chunk_init)
                 (current_content chunk_init \<noteq> []) (split_nn markdown_text))
            \<inter> fst ` set (sections chunk_init) = {}"
      by (simp add: chunk_init_def)
  qed
  then show ?thesis
    by (simp add: chunk_content_def chunk_paragraphs_def non_header_blocks_def
        body_blocks_emitted_def chunk_init_def)
qed

theorem segmentation_block_count_witness:
  "stored_names ''Introduction'' False
     (split_nn ''lead\<newline>\<newline># A\<newline>\<newline># A\<newline>\<newline>x\<newline>\<newline>y\<newline>\<newline>## B\<newline>\<newline>z'')
     = [''Introduction'', ''A'', ''B''] \<and>
   body_blocks_emitted (chunk_content ''lead\<newline>\<newline># A\<newline>\<newline># A\<newline>\<newline>x\<newline>\<newline>y\<newline>\<newline>## B\<newline>\<newline>z'') = 4 \<and>
   non_header_blocks ''lead\<newline>\<newline># A\<newline>\<newline># A\<newline>\<newline>x\<newline>\<newline>y\<newline>\<newline>## B\<newline>\<newline>z'' = 4"
proof -
  have s: "stored_names ''Introduction'' False
     (split_nn ''lead\<newline>\<newline># A\<newline>\<newline># A\<newline>\<newline>x\<newline>\<newline>y\<newline>\<newline>## B\<newline>\<newline>z'')
     = [''Introduction'', ''A'', ''B'']"
    by (simp add: segment_eval)
  then have h: "distinct (stored_names ''Introduction'' False
     (split_nn ''lead\<newline>\<newline># A\<newline>\<newline># A\<newline>\<newline>x\<newline>\<newline>y\<newline>\<newline>## B\<newline>\<newline>z''))"
    by simp
  have n: "non_header_blocks ''lead\<newline>\<newline># A\<newline>\<newline># A\<newline>\<newline>x\<newline>\<newline>y\<newline>\<newline>## B\<newline>\<newline>z'' = 4"
    by (simp add: segment_eval)
  from segmentation_block_count[OF h] s n show ?thesis by simp
qed

section \<open>The last body stored under a name wins\<close>

lemma fold_body:
  "\<forall>b\<in>set body. \<not> is_header b \<Longrightarrow>
   foldl chunk_step st body = st \<lparr> current_content := current_content st @ body \<rparr>"
  by (induction body arbitrary: st) (simp_all add: chunk_step_def is_header_def)

lemma fold_keeps_other_name:
  "n \<notin> set (stored_names (current_section st) (current_content st \<noteq> []) ps) \<Longrightarrow>
   map_of (save_section (foldl chunk_step st ps)) n = map_of (sections st) n"
proof (induction ps arbitrary: st)
  case Nil
  then show ?case by (auto simp: save_section_def update_conv' split: if_splits)
next
  case (Cons p ps)
  show ?case
  proof (cases "is_header p")
    case True
    let ?st = "\<lparr> sections = save_section st, current_section = section_name p,
                 current_content = [] \<rparr>"
    have step: "chunk_step st p = ?st"
      using True by (simp add: chunk_step_def is_header_def section_name_def)
    from Cons.prems True
    have n: "current_content st \<noteq> [] \<longrightarrow> n \<noteq> current_section st"
      and rest: "n \<notin> set (stored_names (current_section ?st) (current_content ?st \<noteq> []) ps)"
      by (auto split: if_splits)
    have "map_of (save_section st) n = map_of (sections st) n"
      using n by (auto simp: save_section_def update_conv')
    with Cons.IH[OF rest] step show ?thesis by simp
  next
    case False
    let ?st = "st \<lparr> current_content := current_content st @ [p] \<rparr>"
    have step: "chunk_step st p = ?st"
      using False by (simp add: chunk_step_def is_header_def)
    from Cons.prems False
    have "n \<notin> set (stored_names (current_section ?st) (current_content ?st \<noteq> []) ps)"
      by simp
    from Cons.IH[OF this] step show ?thesis by simp
  qed
qed

lemma section_after_header:
  assumes h: "is_header h"
    and body: "body \<noteq> []" "\<forall>b\<in>set body. \<not> is_header b"
    and rest: "rest = [] \<or> is_header (hd rest)"
    and last: "section_name h \<notin> set (stored_names (section_name h) False rest)"
  shows "map_of (save_section (foldl chunk_step st (h # body @ rest))) (section_name h)
         = Some (join_nn body)"
proof -
  let ?s1 = "\<lparr> sections = save_section st, current_section = section_name h,
               current_content = [] \<rparr>"
  let ?s2 = "?s1 \<lparr> current_content := body \<rparr>"
  have s1: "chunk_step st h = ?s1"
    using h by (simp add: chunk_step_def is_header_def section_name_def)
  have s2: "foldl chunk_step ?s1 body = ?s2"
    using fold_body[OF body(2), of ?s1] by simp
  have saved: "map_of (save_section ?s2) (section_name h) = Some (join_nn body)"
    using body(1) by (simp add: save_section_def update_conv')
  show ?thesis
  proof (cases rest)
    case Nil
    with s1 s2 saved show ?thesis by simp
  next
    case (Cons r rs)
    with rest have r: "is_header r" by simp
    let ?s3 = "\<lparr> sections = save_section ?s2, current_section = section_name r,
                 current_content = [] \<rparr>"
    have s3: "chunk_step ?s2 r = ?s3"
      using r by (simp add: chunk_step_def is_header_def section_name_def)
    from last Cons r
    have "section_name h
            \<notin> set (stored_names (current_section ?s3) (current_content ?s3 \<noteq> []) rs)"
      by simp
    from fold_keeps_other_name[OF this]
    have "map_of (save_section (foldl chunk_step ?s3 rs)) (section_name h)
          = map_of (sections ?s3) (section_name h)" .
    with s1 s2 s3 saved Cons show ?thesis by simp
  qed
qed

text \<open>
  C7, as stated, fails when the later header has no body block: in \<open># A / x / # A\<close> two
  header blocks normalize to \<open>A\<close>, nothing is accumulated after the later one, no save
  happens for it, and the output still holds the body \<open>x\<close> of the earlier header.
\<close>

theorem later_header_counterexample:
  "split_nn ''# A\<newline>\<newline>x\<newline>\<newline># A'' = [''# A'', ''x'', ''# A''] \<and>
   section_name ''# A'' = ''A'' \<and>
   map_of (chunk_content ''# A\<newline>\<newline>x\<newline>\<newline># A'') ''A'' = Some ''x''"
  by (simp add: segment_eval)

text \<open>
  C7, amended: for every input document in which two header blocks normalize to the same
  section name, the later one is followed by at least one body block, and no section
  after it stores a body under that name again, the output stores under that name exactly
  the body accumulated after the later header (its blocks up to the next header or the
  end of the input, joined by blank lines), whatever was accumulated after the earlier
  header.
\<close>

theorem later_header_body_wins:
  assumes "split_nn markdown_text = pre @ h1 # mid @ h2 # body @ rest"
    and "is_header h1" "is_header h2" "section_name h1 = section_name h2"
    and "body \<noteq> []" "\<forall>b\<in>set body. \<not> is_header b"
    and "rest = [] \<or> is_header (hd rest)"
    and "section_name h2 \<notin> set (stored_names (section_name h2) False rest)"
  shows "map_of (chunk_content markdown_text) (section_name h2) = Some (join_nn body)"
proof -
  have "foldl chunk_step chunk_init (pre @ h1 # mid @ h2 # body @ rest)
        = foldl chunk_step (foldl chunk_step chunk_init (pre @ h1 # mid)) (h2 # body @ rest)"
    by (simp only: foldl_append[symmetric] append.assoc append_Cons)
  then show ?thesis
    using section_after_header[OF assms(3,5,6,7,8)] assms(1)
    by (simp add: chunk_content_def chunk_paragraphs_def)
qed

theorem later_header_body_wins_witness:
  "map_of (chunk_content ''# A\<newline>\<newline>x\<newline>\<newline>#  A \<newline>\<newline>y\<newline>\<newline>z\<newline>\<newline># B\<newline>\<newline>w\<newline>\<newline>## A'') ''A''
   = Some ''y\<newline>\<newline>z''"
proof -
  have s: "split_nn ''# A\<newline>\<newline>x\<newline>\<newline>#  A \<newline>\<newline>y\<newline>\<newline>z\<newline>\<newline># B\<newline>\<newline>w\<newline>\<newline>## A''
           = [] @ ''# A'' # [''x''] @ ''#  A '' # [''y'', ''z''] @ [''# B'', ''w'', ''## A'']"
    by simp
  have h: "is_header ''# A''" "is_header ''#  A ''" "section_name ''# A'' = section_name ''#  A ''"
    by (simp_all add: segment_eval)
  have b: "[''y'', ''z''] \<noteq> []" "\<forall>b\<in>set [''y'', ''z'']. \<not> is_header b"
    by (simp_all add: segment_eval)
  have r: "[''# B'', ''w'', ''## A''] = [] \<or> is_header (hd [''# B'', ''w'', ''## A''])"
    "section_name ''#  A ''
       \<notin> set (stored_names (section_name ''#  A '') False [''# B'', ''w'', ''## A''])"
    by (simp_all add: segment_eval)
  from later_header_body_wins[OF s h b r] show ?thesis
    by (simp add: segment_eval)
qed

section \<open>One step of the aggregation, by cases\<close>

lemma update_absent: "map_of al k = None \<Longrightarrow> AList.update k v al = al @ [(k, v)]"
  by (induction al) (auto split: if_splits)

lemma update_present:
  "map_of al k = Some b \<Longrightarrow>
   \<exists>xs ys. al = xs @ (k, b) # ys \<and> k \<notin> fst ` set xs \<and> AList.update k v al = xs @ (k, v) # ys"
proof (induction al)
  case Nil
  then show ?case by simp
next
  case (Cons a al)
  show ?case
  proof (cases "fst a = k")
    case True
    with Cons.prems have "a = (k, b)" by (cases a) auto
    then have "a # al = [] @ (k, b) # al \<and> k \<notin> fst ` set [] \<and>
               AList.update k v (a # al) = [] @ (k, v) # al" by simp
    then show ?thesis by blast
  next
    case False
    with Cons.prems have "map_of al k = Some b" by (cases a) auto
    from Cons.IH[OF this] obtain xs ys where
      "al = xs @ (k, b) # ys" "k \<notin> fst ` set xs" "AList.update k v al = xs @ (k, v) # ys"
      by blast
    with False have "a # al = (a # xs) @ (k, b) # ys \<and> k \<notin> fst ` set (a # xs) \<and>
               AList.update k v (a # al) = (a # xs) @ (k, v) # ys"
      by (cases a) auto
    then show ?thesis by blast
  qed
qed

lemma record_bias_cases [case_names absent fresh replace join]:
  fixes content st bias
  defines "p \<equiv> biased_phrase bias"
  defines "ci \<equiv> str_find content (biased_phrase bias)"
  defines "k \<equiv> lower (biased_phrase bias)"
  defines "i \<equiv> bias_index st"
  defines "found' \<equiv> found_instances st @ [\<lparr> bias_id = bias_index st, bias_instance = bias \<rparr>]"
  obtains
    (absent) "ci = - 1" "record_bias content st bias = st"
  | (fresh) "ci \<noteq> - 1" "map_of (bias_phrase_heatmap st) k = None"
      "record_bias content st bias =
         st \<lparr> found_instances := found',
              bias_phrase_heatmap := bias_phrase_heatmap st @ [(k, new_bucket ci p i)],
              bias_index := i + 1 \<rparr>"
  | (replace) b xs ys where "ci \<noteq> - 1" "bias_phrase_heatmap st = xs @ (k, b) # ys"
      "k \<notin> fst ` set xs" "index b \<noteq> ci"
      "record_bias content st bias =
         st \<lparr> found_instances := found',
              bias_phrase_heatmap := xs @ (k, new_bucket ci p i) # ys,
              bias_index := i + 1 \<rparr>"
  | (join) b xs ys where "ci \<noteq> - 1" "bias_phrase_heatmap st = xs @ (k, b) # ys"
      "k \<notin> fst ` set xs" "index b = ci"
      "record_bias content st bias =
         st \<lparr> found_instances := found',
              bias_phrase_heatmap := xs @ (k, join_bucket b i) # ys,
              bias_index := i + 1 \<rparr>"
proof (cases "ci = - 1")
  case True
  then have "record_bias content st bias = st"
    by (simp add: record_bias_def ci_def Let_def)
  with True show ?thesis by (rule absent)
next
  case found: False
  show ?thesis
  proof (cases "map_of (bias_phrase_heatmap st) k")
    case None
    with found have "record_bias content st bias =
         st \<lparr> found_instances := found',
              bias_phrase_heatmap := bias_phrase_heatmap st @ [(k, new_bucket ci p i)],
              bias_index := i + 1 \<rparr>"
      by (simp add: record_bias_def Let_def update_absent ci_def k_def i_def p_def found'_def)
    with found None show ?thesis by (rule fresh)
  next
    case (Some b)
    show ?thesis
    proof (cases "index b = ci")
      case True
      from update_present[OF Some, of "join_bucket b i"] obtain xs ys where
        d: "bias_phrase_heatmap st = xs @ (k, b) # ys" "k \<notin> fst ` set xs"
          "AList.update k (join_bucket b i) (bias_phrase_heatmap st) = xs @ (k, join_bucket b i) # ys"
        by blast
      have "record_bias content st bias =
         st \<lparr> found_instances := found',
              bias_phrase_heatmap := xs @ (k, join_bucket b i) # ys,
              bias_index := i + 1 \<rparr>"
        using found Some True d(3)
        by (simp add: record_bias_def Let_def ci_def k_def i_def p_def found'_def)
      with found d(1,2) True show ?thesis by (rule join)
    next
      case False
      from update_present[OF Some, of "new_bucket ci p i"] obtain xs ys where
        d: "bias_phrase_heatmap st = xs @ (k, b) # ys" "k \<notin> fst ` set xs"
          "AList.update k (new_bucket ci p i) (bias_phrase_heatmap st) = xs @ (k, new_bucket ci p i) # ys"
        by blast
      have "record_bias content st bias =
         st \<lparr> found_instances := found',
              bias_phrase_heatmap := xs @ (k, new_bucket ci p i) # ys,
              bias_index := i + 1 \<rparr>"
        using found Some False d(3)
        by (simp add: record_bias_def Let_def ci_def k_def i_def p_def found'_def)
      with found d(1,2) False show ?thesis by (rule replace)
    qed
  qed
qed

lemma foldl_record_bias_inv:
  assumes "\<And>st bias. P st \<Longrightarrow> P (record_bias content st bias)" and "P st"
  shows "P (foldl (record_bias content) st biases)"
  using assms(2) by (induction biases arbitrary: st) (simp_all add: assms(1))

lemma run_sample_inv:
  assumes "\<And>st bias. P st \<Longrightarrow> P (record_bias content st bias)"
    and "\<And>st a. P st \<Longrightarrow> P (st \<lparr> analyses := a \<rparr>)"
    and "P st" and "run_sample orc content st i = Inr st'"
  shows "P st'"
  using assms(3,4) foldl_record_bias_inv[of P content, OF assms(1)] assms(2)
  by (auto simp: run_sample_def split: sum.splits option.splits)

lemma run_samples_inv:
  assumes "\<And>st bias. P st \<Longrightarrow> P (record_bias content st bias)"
    and "\<And>st a. P st \<Longrightarrow> P (st \<lparr> analyses := a \<rparr>)"
    and "P st" and "run_samples orc content st js = Inr st'"
  shows "P st'"
  using assms(3,4)
proof (induction js arbitrary: st)
  case Nil
  then show ?case by simp
next
  case (Cons j js)
  from Cons.prems(2) obtain st1 where
    s: "run_sample orc content st j = Inr st1" "run_samples orc content st1 js = Inr st'"
    by (auto split: sum.splits)
  have "P st1"
    using run_sample_inv[of P content, OF assms(1,2) Cons.prems(1) s(1)] .
  then show ?case using Cons.IH s(2) by blast
qed

section \<open>Invariants of the aggregation\<close>

lemma ids_consecutive_step: "ids_consecutive st \<Longrightarrow> ids_consecutive (record_bias content st bias)"
  by (cases content bias st rule: record_bias_cases) (simp_all add: ids_consecutive_def)

lemma ids_consecutive_run:
  "run_samples orc content analyzer_init js = Inr st \<Longrightarrow> ids_consecutive st"
  by (rule run_samples_inv[of ids_consecutive content, OF ids_consecutive_step])
     (simp_all add: ids_consecutive_def analyzer_init_def)

lemma counts_match_step:
  "counts_match (bias_phrase_heatmap st) \<Longrightarrow>
   counts_match (bias_phrase_heatmap (record_bias content st bias))"
  by (cases content bias st rule: record_bias_cases)
     (auto simp: counts_match_def new_bucket_def join_bucket_def)

lemma counts_match_run:
  "run_samples orc content analyzer_init js = Inr st \<Longrightarrow> counts_match (bias_phrase_heatmap st)"
  by (rule run_samples_inv[of "\<lambda>st. counts_match (bias_phrase_heatmap st)" content,
        OF counts_match_step])
     (simp_all add: counts_match_def analyzer_init_def)

lemma bucket_ids_Nil: "bucket_ids [] = []"
  by (simp add: bucket_ids_def)

lemma bucket_ids_append: "bucket_ids (xs @ ys) = bucket_ids xs @ bucket_ids ys"
  by (simp add: bucket_ids_def)

lemma bucket_ids_Cons: "bucket_ids ((k, b) # ys) = bias_instances b @ bucket_ids ys"
  by (simp add: bucket_ids_def)

lemmas bucket_ids_simps = bucket_ids_Nil bucket_ids_append bucket_ids_Cons

lemma ids_fresh_step:
  assumes "ids_fresh st"
  shows "ids_fresh (record_bias content st bias)"
proof -
  let ?i = "bias_index st"
  let ?ids = "bucket_ids (bias_phrase_heatmap st)"
  from assms have i0: "0 \<le> ?i" "0 \<le> ?i + 1" and d: "distinct ?ids"
    and lt: "\<forall>j\<in>set ?ids. 0 \<le> j \<and> j < ?i"
    by (simp_all add: ids_fresh_def)
  have n: "?i \<notin> set ?ids" using lt by force
  have le: "\<forall>j\<in>set ?ids. 0 \<le> j \<and> j < ?i + 1" using lt by force
  show ?thesis
  proof (cases content bias st rule: record_bias_cases)
    case absent
    with assms show ?thesis by simp
  next
    case fresh
    from i0 d n le show ?thesis
      unfolding fresh(3) ids_fresh_def
      by (simp add: bucket_ids_simps new_bucket_def)
  next
    case (replace b xs ys)
    from i0 d n le show ?thesis
      unfolding replace(5) replace(2) ids_fresh_def
      by (auto simp: bucket_ids_simps new_bucket_def)
  next
    case (join b xs ys)
    from i0 d n le show ?thesis
      unfolding join(5) join(2) ids_fresh_def
      by (auto simp: bucket_ids_simps join_bucket_def)
  qed
qed

lemma ids_fresh_run:
  "run_samples orc content analyzer_init js = Inr st \<Longrightarrow> ids_fresh st"
  by (rule run_samples_inv[of ids_fresh content, OF ids_fresh_step])
     (simp_all add: ids_fresh_def bucket_ids_def analyzer_init_def)


lemma keys_distinct_step:
  "distinct (map fst (bias_phrase_heatmap st)) \<Longrightarrow>
   distinct (map fst (bias_phrase_heatmap (record_bias content st bias)))"
  by (cases content bias st rule: record_bias_cases)
     (auto simp: map_of_eq_None_iff)

lemma keys_distinct_run:
  "run_samples orc content analyzer_init js = Inr st \<Longrightarrow>
   distinct (map fst (bias_phrase_heatmap st))"
  by (rule run_samples_inv[of "\<lambda>st. distinct (map fst (bias_phrase_heatmap st))" content,
        OF keys_distinct_step])
     (simp_all add: analyzer_init_def)

section \<open>Ids are consecutive from zero\<close>

lemma found_record_bias:
  "map bias_instance (found_instances (record_bias content st bias))
   = map bias_instance (found_instances st) @ filter (resolves content) [bias]"
  by (cases content bias st rule: record_bias_cases) (simp_all add: resolves_def)

lemma found_foldl:
  "map bias_instance (found_instances (foldl (record_bias content) st biases))
   = map bias_instance (found_instances st) @ filter (resolves content) biases"
  by (induction biases arbitrary: st) (simp_all add: found_record_bias)

lemma found_run_samples:
  "run_samples orc content st js = Inr st' \<Longrightarrow>
   map bias_instance (found_instances st')
   = map bias_instance (found_instances st)
     @ filter (resolves content) (reported_findings orc content js)"
proof (induction js arbitrary: st)
  case Nil
  then show ?case by (simp add: reported_findings_def)
next
  case (Cons j js)
  from Cons.prems obtain st1 where
    s: "run_sample orc content st j = Inr st1" "run_samples orc content st1 js = Inr st'"
    by (auto split: sum.splits)
  from s(1) obtain a where a: "orc j content = Inr (Some a)"
    "st1 = foldl (record_bias content) (st \<lparr> analyses := analyses st @ [Some a] \<rparr>)
             (detected_biases a)"
    by (auto simp: run_sample_def split: sum.splits option.splits)
  have "map bias_instance (found_instances st1)
        = map bias_instance (found_instances st) @ filter (resolves content) (detected_biases a)"
    by (simp add: a(2) found_foldl)
  with Cons.IH[OF s(2)] a(1) show ?case
    by (simp add: reported_findings_def)
qed

text \<open>
  C10. Whenever the aggregation returns, the ids of the returned findings are exactly
  \<open>0, 1, \<dots>, n - 1\<close> in list order, \<open>n\<close> the length of the list, and the returned
  findings are the reported findings that resolve, in the order they were reported: the
  counter is incremented once for each finding that resolves and not otherwise, so a
  discarded finding consumes no id.
\<close>

theorem ids_consecutive_from_zero:
  assumes "analyze_content orc content runs = Inr (found, heatmap)"
  shows "map bias_id found = map int [0 ..< length found] \<and>
         map bias_instance found
         = filter (resolves content) (reported_findings orc content [0 ..< nat runs])"
proof -
  from assms obtain st where st:
    "run_samples orc content analyzer_init [0 ..< nat runs] = Inr st"
    "found = found_instances st"
    by (auto simp: analyze_content_def split: sum.splits)
  from ids_consecutive_run[OF st(1)] st(2)
  have "map bias_id found = map int [0 ..< length found]"
    by (simp add: ids_consecutive_def)
  moreover from found_run_samples[OF st(1)] st(2)
  have "map bias_instance found
        = filter (resolves content) (reported_findings orc content [0 ..< nat runs])"
    by (simp add: analyzer_init_def)
  ultimately show ?thesis by simp
qed

theorem ids_consecutive_from_zero_witness:
  "\<exists>found heatmap.
     analyze_content (\<lambda>i c. reply [''the'', ''zzz'', ''The'']) ''The the'' 2 = Inr (found, heatmap) \<and>
     length found = 4 \<and> map bias_id found = map int [0 ..< length found] \<and>
     map bias_instance found = map finding [''the'', ''The'', ''the'', ''The'']"
proof -
  obtain found heatmap where
    e: "analyze_content (\<lambda>i c. reply [''the'', ''zzz'', ''The'']) ''The the'' 2 = Inr (found, heatmap)"
    and n: "length found = 4"
    by (simp add: analyze_eval)
  have r: "filter (resolves ''The the'')
             (reported_findings (\<lambda>i c. reply [''the'', ''zzz'', ''The'']) ''The the'' [0 ..< nat 2])
           = map finding [''the'', ''The'', ''the'', ''The'']"
    by (simp add: analyze_eval)
  from ids_consecutive_from_zero[OF e] e n r show ?thesis
    by (intro exI[of _ found] exI[of _ heatmap]) simp
qed

section \<open>Counts and contribution lists\<close>

lemma bucket_tracks_grow:
  "bucket_tracks content found key b \<Longrightarrow> bucket_tracks content (found @ [x]) key b"
  by (auto simp: bucket_tracks_def finding_key_def finding_offset_def nth_append)

lemma bucket_tracks_new:
  "bucket_tracks content (found @ [\<lparr> bias_id = j, bias_instance = bias \<rparr>])
     (lower (biased_phrase bias))
     (new_bucket (str_find content (biased_phrase bias)) (biased_phrase bias) (int (length found)))"
  by (simp add: bucket_tracks_def new_bucket_def finding_key_def finding_offset_def)

lemma bucket_tracks_join:
  assumes "bucket_tracks content found (lower (biased_phrase bias)) b"
    and "index b = str_find content (biased_phrase bias)"
  shows "bucket_tracks content (found @ [\<lparr> bias_id = j, bias_instance = bias \<rparr>])
           (lower (biased_phrase bias)) (join_bucket b (int (length found)))"
  using bucket_tracks_grow[OF assms(1), of "\<lparr> bias_id = j, bias_instance = bias \<rparr>"] assms(2)
  by (simp add: bucket_tracks_def join_bucket_def finding_key_def finding_offset_def)

lemma superseded_last: "\<not> superseded content (found @ [x]) (length found)"
  by (simp add: superseded_def)

lemma superseded_grow:
  assumes "i < length found"
  shows "superseded content (found @ [x]) i
         = (superseded content found i \<or>
            (lower (biased_phrase (bias_instance x)) = finding_key found i \<and>
             str_find content (biased_phrase (bias_instance x)) \<noteq> finding_offset content found i))"
proof -
  have old: "\<And>j. j < length found \<Longrightarrow>
               finding_key (found @ [x]) j = finding_key found j \<and>
               finding_offset content (found @ [x]) j = finding_offset content found j"
    by (simp add: finding_key_def finding_offset_def nth_append)
  have new: "finding_key (found @ [x]) (length found) = lower (biased_phrase (bias_instance x))"
    "finding_offset content (found @ [x]) (length found)
     = str_find content (biased_phrase (bias_instance x))"
    by (simp_all add: finding_key_def finding_offset_def)
  have "[Suc i ..< length (found @ [x])] = [Suc i ..< length found] @ [length found]"
    using assms by simp
  then show ?thesis
    using assms old new
    by (auto simp: superseded_def list_ex_iff)
qed

lemma id_in_bucket:
  assumes "\<forall>(key, b) \<in> set heatmap. bucket_tracks content found key b"
    and "int i \<in> set (bucket_ids heatmap)"
  shows "\<exists>b. (finding_key found i, b) \<in> set heatmap \<and> int i \<in> set (bias_instances b) \<and>
             finding_offset content found i = index b"
proof -
  from assms(2) obtain key b where kb: "(key, b) \<in> set heatmap" "int i \<in> set (bias_instances b)"
    by (auto simp: bucket_ids_def)
  with assms(1) have "bucket_tracks content found key b" by auto
  with kb(2) have "finding_key found i = key" "finding_offset content found i = index b"
    by (auto simp: bucket_tracks_def)
  with kb show ?thesis by auto
qed

lemma ids_tracked_step:
  assumes t: "ids_tracked content st" and f: "ids_fresh st"
    and d: "distinct (map fst (bias_phrase_heatmap st))"
  shows "ids_tracked content (record_bias content st bias)"
proof (cases content bias st rule: record_bias_cases)
  case absent
  with t show ?thesis by simp
next
  case fresh
  let ?found = "found_instances st" and ?hm = "bias_phrase_heatmap st"
  let ?x = "\<lparr> bias_id = bias_index st, bias_instance = bias \<rparr>"
  let ?k = "lower (biased_phrase bias)" and ?o = "str_find content (biased_phrase bias)"
  from t have n: "bias_index st = int (length ?found)"
    and tr: "\<forall>(key, b) \<in> set ?hm. bucket_tracks content ?found key b"
    and mem: "\<forall>i < length ?found. (int i \<in> set (bucket_ids ?hm)) = (\<not> superseded content ?found i)"
    by (simp_all add: ids_tracked_def)
  have tr': "\<forall>(key, b) \<in> set (?hm @ [(?k, new_bucket ?o (biased_phrase bias) (bias_index st))]).
               bucket_tracks content (?found @ [?x]) key b"
    using tr n by (auto simp: bucket_tracks_new intro: bucket_tracks_grow)
  have mem': "(int i \<in> set (bucket_ids (?hm @ [(?k, new_bucket ?o (biased_phrase bias) (bias_index st))])))
              = (\<not> superseded content (?found @ [?x]) i)" if i: "i < length (?found @ [?x])" for i
  proof (cases "i = length ?found")
    case True
    then show ?thesis
      using n superseded_last[of content ?found ?x]
      by (simp add: bucket_ids_simps new_bucket_def)
  next
    case False
    with i have il: "i < length ?found" by simp
    have in_old: "(int i \<in> set (bucket_ids (?hm @ [(?k, new_bucket ?o (biased_phrase bias) (bias_index st))])))
                  = (int i \<in> set (bucket_ids ?hm))"
      using il n by (auto simp: bucket_ids_simps new_bucket_def)
    have "finding_key ?found i \<noteq> ?k" if "int i \<in> set (bucket_ids ?hm)"
    proof -
      from id_in_bucket[OF tr that] obtain b where "(finding_key ?found i, b) \<in> set ?hm" by blast
      then have "map_of ?hm (finding_key ?found i) \<noteq> None"
        by (metis map_of_eq_None_iff fst_conv image_eqI)
      with fresh(2) show ?thesis by auto
    qed
    with mem il in_old show ?thesis
      by (auto simp: superseded_grow)
  qed
  from n tr' mem' show ?thesis
    unfolding fresh(3) ids_tracked_def by simp
next
  case (replace b xs ys)
  let ?found = "found_instances st" and ?hm = "bias_phrase_heatmap st"
  let ?x = "\<lparr> bias_id = bias_index st, bias_instance = bias \<rparr>"
  let ?k = "lower (biased_phrase bias)" and ?o = "str_find content (biased_phrase bias)"
  let ?hm' = "xs @ (?k, new_bucket ?o (biased_phrase bias) (bias_index st)) # ys"
  from t have n: "bias_index st = int (length ?found)"
    and tr: "\<forall>(key, b) \<in> set ?hm. bucket_tracks content ?found key b"
    and mem: "\<forall>i < length ?found. (int i \<in> set (bucket_ids ?hm)) = (\<not> superseded content ?found i)"
    by (simp_all add: ids_tracked_def)
  from f have dis: "distinct (bucket_ids ?hm)" by (simp add: ids_fresh_def)
  from d replace(2) have kx: "?k \<notin> fst ` set xs" "?k \<notin> fst ` set ys" by auto
  have tr': "\<forall>(key, b) \<in> set ?hm'. bucket_tracks content (?found @ [?x]) key b"
    using tr n unfolding replace(2) by (auto simp: bucket_tracks_new intro: bucket_tracks_grow)
  have mem': "(int i \<in> set (bucket_ids ?hm')) = (\<not> superseded content (?found @ [?x]) i)"
    if i: "i < length (?found @ [?x])" for i
  proof (cases "i = length ?found")
    case True
    then show ?thesis
      using n superseded_last[of content ?found ?x]
      by (simp add: bucket_ids_simps new_bucket_def)
  next
    case False
    with i have il: "i < length ?found" by simp
    have in_new: "(int i \<in> set (bucket_ids ?hm'))
                  = (int i \<in> set (bucket_ids xs) \<union> set (bucket_ids ys))"
      using il n by (auto simp: bucket_ids_simps new_bucket_def)
    show ?thesis
    proof (cases "int i \<in> set (bucket_ids ?hm)")
      case False
      then have "int i \<notin> set (bucket_ids xs) \<union> set (bucket_ids ys)"
        unfolding replace(2) by (simp add: bucket_ids_simps)
      moreover from False mem il have "superseded content ?found i" by simp
      ultimately show ?thesis using in_new il by (simp add: superseded_grow)
    next
      case True
      with mem il have ns: "\<not> superseded content ?found i" by simp
      show ?thesis
      proof (cases "int i \<in> set (bias_instances b)")
        case inb: True
        from tr replace(2) have "bucket_tracks content ?found ?k b" by auto
        with inb have "finding_key ?found i = ?k" "finding_offset content ?found i = index b"
          by (auto simp: bucket_tracks_def)
        with replace(4) have "superseded content (?found @ [?x]) i"
          using il by (simp add: superseded_grow)
        moreover from dis inb have "int i \<notin> set (bucket_ids xs) \<union> set (bucket_ids ys)"
          unfolding replace(2) by (auto simp: bucket_ids_simps)
        ultimately show ?thesis using in_new by simp
      next
        case notb: False
        with True have other: "int i \<in> set (bucket_ids xs) \<union> set (bucket_ids ys)"
          unfolding replace(2) by (simp add: bucket_ids_simps)
        have trx: "\<forall>(key, b) \<in> set (xs @ ys). bucket_tracks content ?found key b"
          using tr unfolding replace(2) by auto
        from other have "int i \<in> set (bucket_ids (xs @ ys))" by (simp add: bucket_ids_simps)
        from id_in_bucket[OF trx this] obtain b' where
          "(finding_key ?found i, b') \<in> set (xs @ ys)" by blast
        with kx have "finding_key ?found i \<noteq> ?k" by force
        with ns il have "\<not> superseded content (?found @ [?x]) i"
          by (simp add: superseded_grow)
        with other in_new show ?thesis by simp
      qed
    qed
  qed
  from n tr' mem' show ?thesis
    unfolding replace(5) ids_tracked_def by simp
next
  case (join b xs ys)
  let ?found = "found_instances st" and ?hm = "bias_phrase_heatmap st"
  let ?x = "\<lparr> bias_id = bias_index st, bias_instance = bias \<rparr>"
  let ?k = "lower (biased_phrase bias)" and ?o = "str_find content (biased_phrase bias)"
  let ?hm' = "xs @ (?k, join_bucket b (bias_index st)) # ys"
  from t have n: "bias_index st = int (length ?found)"
    and tr: "\<forall>(key, b) \<in> set ?hm. bucket_tracks content ?found key b"
    and mem: "\<forall>i < length ?found. (int i \<in> set (bucket_ids ?hm)) = (\<not> superseded content ?found i)"
    by (simp_all add: ids_tracked_def)
  from d join(2) have kx: "?k \<notin> fst ` set xs" "?k \<notin> fst ` set ys" by auto
  from tr join(2) have trb: "bucket_tracks content ?found ?k b" by auto
  have tr': "\<forall>(key, b) \<in> set ?hm'. bucket_tracks content (?found @ [?x]) key b"
    using tr n trb join(4) unfolding join(2)
    by (auto simp: bucket_tracks_join intro: bucket_tracks_grow)
  have mem': "(int i \<in> set (bucket_ids ?hm')) = (\<not> superseded content (?found @ [?x]) i)"
    if i: "i < length (?found @ [?x])" for i
  proof (cases "i = length ?found")
    case True
    then show ?thesis
      using n superseded_last[of content ?found ?x]
      by (simp add: bucket_ids_simps join_bucket_def)
  next
    case False
    with i have il: "i < length ?found" by simp
    have in_new: "(int i \<in> set (bucket_ids ?hm')) = (int i \<in> set (bucket_ids ?hm))"
      using il n unfolding join(2) by (auto simp: bucket_ids_simps join_bucket_def)
    show ?thesis
    proof (cases "int i \<in> set (bucket_ids ?hm)")
      case False
      with mem il have "superseded content ?found i" by simp
      with False in_new il show ?thesis by (simp add: superseded_grow)
    next
      case True
      with mem il have ns: "\<not> superseded content ?found i" by simp
      from id_in_bucket[OF tr True] obtain b' where b':
        "(finding_key ?found i, b') \<in> set ?hm" "finding_offset content ?found i = index b'"
        by blast
      have "finding_offset content ?found i = ?o" if "finding_key ?found i = ?k"
      proof -
        from b'(1) that have "(?k, b') \<in> set ?hm" by simp
        moreover have "(?k, b) \<in> set ?hm" unfolding join(2) by simp
        ultimately have "b' = b" using d by (meson eq_key_imp_eq_value)
        with b'(2) join(4) show ?thesis by simp
      qed
      with ns il have "\<not> superseded content (?found @ [?x]) i"
        by (auto simp: superseded_grow)
      with True in_new show ?thesis by simp
    qed
  qed
  from n tr' mem' show ?thesis
    unfolding join(5) ids_tracked_def by simp
qed

lemma ids_settled_step:
  "ids_settled content st \<Longrightarrow> ids_settled content (record_bias content st bias)"
  unfolding ids_settled_def
  by (intro conjI ids_tracked_step ids_fresh_step keys_distinct_step) simp_all

lemma ids_settled_run:
  "run_samples orc content analyzer_init js = Inr st \<Longrightarrow> ids_settled content st"
proof (rule run_samples_inv[of "ids_settled content" content, OF ids_settled_step])
  show "ids_settled content (st \<lparr> analyses := a \<rparr>)" if "ids_settled content st" for st a
  proof -
    have "ids_tracked content (st \<lparr> analyses := a \<rparr>) = ids_tracked content st"
      by (simp add: ids_tracked_def)
    moreover have "ids_fresh (st \<lparr> analyses := a \<rparr>) = ids_fresh st"
      by (simp add: ids_fresh_def)
    ultimately show ?thesis using that by (simp add: ids_settled_def)
  qed
  show "ids_settled content analyzer_init"
    by (simp add: ids_settled_def ids_tracked_def ids_fresh_def bucket_ids_def analyzer_init_def)
qed

text \<open>
  C2, as stated, fails in its second half: one sample on the content \<open>The the\<close> reports
  the phrases \<open>the\<close> (found at offset 4, id 0) and \<open>The\<close> (found at offset 0, id 1). Both
  have the key \<open>the\<close>; the offsets differ, so the bucket of id 0 is replaced by a new
  bucket holding id 1 alone. Id 0 was assigned and is in no bucket of the result.
\<close>

theorem id_in_one_bucket_counterexample:
  "\<exists>found heatmap.
     analyze_content (\<lambda>i c. reply [''the'', ''The'']) ''The the'' 1 = Inr (found, heatmap) \<and>
     map bias_id found = [0, 1] \<and> bucket_ids heatmap = [1]"
  by (simp add: analyze_eval)

text \<open>
  C2, amended: for every aggregation run that returns, every bucket of the returned
  heatmap has \<open>occurrence_count\<close> equal to the length of its contribution list; every id
  in a contribution list is the id of a returned finding and occurs once in the
  contribution lists of all buckets together; and the id assigned to a returned finding
  appears in the contribution list of exactly one bucket when no later returned finding
  has the same normalized key and resolves to another offset, and in none otherwise.
\<close>

theorem counts_and_ids:
  assumes "analyze_content orc content runs = Inr (found, heatmap)"
  shows "(\<forall>(key, b) \<in> set heatmap. occurrence_count b = int (length (bias_instances b))) \<and>
         distinct (bucket_ids heatmap) \<and>
         set (bucket_ids heatmap) \<subseteq> bias_id ` set found \<and>
         (\<forall>i < length found.
            (bias_id (found ! i) \<in> set (bucket_ids heatmap))
            = (\<not> superseded content found i))"
proof -
  from assms obtain st where st:
    "run_samples orc content analyzer_init [0 ..< nat runs] = Inr st"
    "found = found_instances st" "heatmap = bias_phrase_heatmap st"
    by (auto simp: analyze_content_def split: sum.splits)
  have c: "counts_match heatmap" using counts_match_run st by blast
  have f: "ids_fresh st" using ids_fresh_run st by blast
  have i: "ids_consecutive st" using ids_consecutive_run st by blast
  have t: "ids_tracked content st" using ids_settled_run[OF st(1)] by (simp add: ids_settled_def)
  have sub: "set (bucket_ids heatmap) \<subseteq> bias_id ` set found"
  proof
    fix x assume "x \<in> set (bucket_ids heatmap)"
    with f i st have "0 \<le> x" "x < int (length found)"
      by (auto simp: ids_fresh_def ids_consecutive_def)
    then have "x \<in> set (map int [0 ..< length found])"
      by (auto simp: image_iff intro!: bexI[of _ "nat x"])
    with i st show "x \<in> bias_id ` set found"
      by (metis ids_consecutive_def set_map)
  qed
  have ids: "bias_id (found ! j) = int j" if "j < length found" for j
  proof -
    from i st have "map bias_id found = map int [0 ..< length found]"
      by (simp add: ids_consecutive_def)
    then have "map bias_id found ! j = map int [0 ..< length found] ! j" by simp
    with that show ?thesis by simp
  qed
  have "\<forall>j < length found.
          (bias_id (found ! j) \<in> set (bucket_ids heatmap)) = (\<not> superseded content found j)"
    using t st ids by (simp add: ids_tracked_def)
  with c f st sub show ?thesis by (simp add: counts_match_def ids_fresh_def)
qed

theorem counts_and_ids_witness:
  "\<exists>found heatmap.
     analyze_content (\<lambda>i c. reply [''the'', ''zzz'', ''The'', ''he'']) ''The the'' 2
       = Inr (found, heatmap) \<and>
     map bias_id found = [0, 1, 2, 3, 4, 5] \<and>
     map (superseded ''The the'' found) [0, 1, 2, 3, 4, 5]
       = [True, True, False, True, False, False] \<and>
     map (\<lambda>(key, b). (occurrence_count b, bias_instances b)) heatmap = [(1, [4]), (2, [2, 5])] \<and>
     (\<forall>(key, b) \<in> set heatmap. occurrence_count b = int (length (bias_instances b))) \<and>
     distinct (bucket_ids heatmap) \<and> set (bucket_ids heatmap) \<subseteq> bias_id ` set found \<and>
     (\<forall>i < length found.
        (bias_id (found ! i) \<in> set (bucket_ids heatmap)) = (\<not> superseded ''The the'' found i))"
proof -
  obtain found heatmap where
    e: "analyze_content (\<lambda>i c. reply [''the'', ''zzz'', ''The'', ''he'']) ''The the'' 2
        = Inr (found, heatmap)"
    and n: "map bias_id found = [0, 1, 2, 3, 4, 5]"
    and s: "map (superseded ''The the'' found) [0, 1, 2, 3, 4, 5]
            = [True, True, False, True, False, False]"
    and h: "map (\<lambda>(key, b). (occurrence_count b, bias_instances b)) heatmap
            = [(1, [4]), (2, [2, 5])]"
    by (simp add: analyze_eval superseded_def finding_key_def finding_offset_def)
  from counts_and_ids[OF e] e n s h show ?thesis
    by (intro exI[of _ found] exI[of _ heatmap]) simp
qed

section \<open>A finding at another offset replaces the bucket of its key\<close>

text \<open>
  C1, as stated, fails: the heatmap is a dictionary, and the assignment under an existing
  key puts the new bucket in the place of the old one. On the content \<open>The the\<close>, the
  phrases \<open>the\<close> (offset 4) and \<open>The\<close> (offset 0) share the key \<open>the\<close>; after the run the
  heatmap holds the single bucket of offset 0, and the bucket of offset 4, with its count
  and its contribution id 0, is gone.
\<close>

theorem buckets_coexist_counterexample:
  "\<exists>found.
     analyze_content (\<lambda>i c. reply [''the'', ''The'']) ''The the'' 1
     = Inr (found, [(''the'', \<lparr> index = 0, occurrence_count = 1, bias_phrase = ''The'',
                               bias_instances = [1] \<rparr>)])"
  by (simp add: analyze_eval)

text \<open>
  C1, amended: for every resolved finding whose normalized phrase key already has a bucket
  recorded at a different offset, a new bucket (count 1, this finding's offset, raw phrase
  and id) is stored under the same key in the place of the existing bucket, which is
  dropped; the keys of the heatmap and the buckets of all other keys are unchanged. After
  aggregation the keys of the heatmap are pairwise distinct: there is one bucket for one
  normalized phrase text.
\<close>

theorem different_offset_replaces_bucket:
  "(str_find content (biased_phrase bias) \<noteq> - 1 \<and>
    map_of (bias_phrase_heatmap st) (lower (biased_phrase bias)) = Some b \<and>
    index b \<noteq> str_find content (biased_phrase bias) \<longrightarrow>
      map_of (bias_phrase_heatmap (record_bias content st bias)) (lower (biased_phrase bias))
        = Some (new_bucket (str_find content (biased_phrase bias)) (biased_phrase bias)
                  (bias_index st)) \<and>
      map fst (bias_phrase_heatmap (record_bias content st bias))
        = map fst (bias_phrase_heatmap st) \<and>
      (\<forall>key. key \<noteq> lower (biased_phrase bias) \<longrightarrow>
         map_of (bias_phrase_heatmap (record_bias content st bias)) key
           = map_of (bias_phrase_heatmap st) key)) \<and>
   (analyze_content orc document runs = Inr (found, heatmap) \<longrightarrow> distinct (map fst heatmap))"
proof (intro conjI impI)
  assume a: "str_find content (biased_phrase bias) \<noteq> - 1 \<and>
    map_of (bias_phrase_heatmap st) (lower (biased_phrase bias)) = Some b \<and>
    index b \<noteq> str_find content (biased_phrase bias)"
  let ?k = "lower (biased_phrase bias)"
  let ?nb = "new_bucket (str_find content (biased_phrase bias)) (biased_phrase bias) (bias_index st)"
  from a have hm: "bias_phrase_heatmap (record_bias content st bias)
                   = AList.update ?k ?nb (bias_phrase_heatmap st)"
    by (simp add: record_bias_def Let_def)
  show "map_of (bias_phrase_heatmap (record_bias content st bias)) ?k = Some ?nb"
    by (simp add: hm update_conv')
  have "?k \<in> fst ` set (bias_phrase_heatmap st)"
    using a by (meson domI dom_map_of_conv_image_fst[THEN equalityD1, THEN subsetD])
  then show "map fst (bias_phrase_heatmap (record_bias content st bias))
             = map fst (bias_phrase_heatmap st)"
    by (simp add: hm update_keys)
  show "\<forall>key. key \<noteq> ?k \<longrightarrow>
          map_of (bias_phrase_heatmap (record_bias content st bias)) key
            = map_of (bias_phrase_heatmap st) key"
    by (simp add: hm update_conv')
next
  assume "analyze_content orc document runs = Inr (found, heatmap)"
  then obtain st' where
    "run_samples orc document analyzer_init [0 ..< nat runs] = Inr st'"
    "heatmap = bias_phrase_heatmap st'"
    by (auto simp: analyze_content_def split: sum.splits)
  with keys_distinct_run show "distinct (map fst heatmap)" by blast
qed

theorem different_offset_replaces_bucket_witness:
  "bias_phrase_heatmap (record_bias ''The the'' analyzer_init (finding ''the''))
     = [(''the'', new_bucket 4 ''the'' 0)] \<and>
   bias_phrase_heatmap
     (record_bias ''The the'' (record_bias ''The the'' analyzer_init (finding ''the''))
        (finding ''The''))
     = [(''the'', new_bucket 0 ''The'' 1)] \<and>
   (\<exists>found heatmap.
      analyze_content (\<lambda>i c. reply [''the'', ''The'', ''he'']) ''The the'' 2 = Inr (found, heatmap) \<and>
      map fst heatmap = [''the'', ''he''] \<and> distinct (map fst heatmap))"
proof -
  let ?st = "record_bias ''The the'' analyzer_init (finding ''the'')"
  have h: "str_find ''The the'' (biased_phrase (finding ''The'')) \<noteq> - 1 \<and>
    map_of (bias_phrase_heatmap ?st) (lower (biased_phrase (finding ''The'')))
      = Some (new_bucket 4 ''the'' 0) \<and>
    index (new_bucket 4 ''the'' 0) \<noteq> str_find ''The the'' (biased_phrase (finding ''The''))"
    by (simp add: analyze_eval)
  have s: "bias_phrase_heatmap ?st = [(''the'', new_bucket 4 ''the'' 0)]"
    by (simp add: analyze_eval)
  have i: "bias_index ?st = 1"
    by (simp add: analyze_eval)
  obtain found heatmap where
    e: "analyze_content (\<lambda>i c. reply [''the'', ''The'', ''he'']) ''The the'' 2 = Inr (found, heatmap)"
    and k: "map fst heatmap = [''the'', ''he'']"
    by (simp add: analyze_eval)
  note t = different_offset_replaces_bucket[of "''The the''" "finding ''The''" ?st
      "new_bucket 4 ''the'' 0" "\<lambda>i c. reply [''the'', ''The'', ''he'']" "''The the''" 2 found heatmap]
  from t h have m: "map_of (bias_phrase_heatmap (record_bias ''The the'' ?st (finding ''The'')))
                  (lower (biased_phrase (finding ''The'')))
                = Some (new_bucket (str_find ''The the'' (biased_phrase (finding ''The'')))
                          (biased_phrase (finding ''The'')) (bias_index ?st))"
    and f: "map fst (bias_phrase_heatmap (record_bias ''The the'' ?st (finding ''The'')))
            = map fst (bias_phrase_heatmap ?st)"
    by blast+
  from f s obtain v where
    v: "bias_phrase_heatmap (record_bias ''The the'' ?st (finding ''The'')) = [(''the'', v)]"
    by (cases "bias_phrase_heatmap (record_bias ''The the'' ?st (finding ''The''))") auto
  have l: "lower (biased_phrase (finding ''The'')) = ''the''"
    "str_find ''The the'' (biased_phrase (finding ''The'')) = 0"
    "biased_phrase (finding ''The'') = ''The''"
    by (simp_all add: analyze_eval)
  from m v i l have "v = new_bucket 0 ''The'' 1" by simp
  moreover from t e have "distinct (map fst heatmap)" by blast
  ultimately show ?thesis using s v e k
    by (intro conjI exI[of _ found] exI[of _ heatmap]) simp_all
qed

section \<open>The key of a bucket is the lower-cased phrase\<close>












section \<open>One sample, and many identical samples\<close>

lemma str_find_from_found:
  "str_find_from i s sub \<noteq> - 1 \<Longrightarrow> 0 \<le> i \<Longrightarrow>
   \<exists>n. str_find_from i s sub = i + int n \<and> prefix sub (drop n s)"
proof (induction s arbitrary: i)
  case Nil
  then show ?case by (auto split: if_splits intro: exI[of _ 0])
next
  case (Cons c cs)
  show ?case
  proof (cases "prefix sub (c # cs)")
    case True
    then have "str_find_from i (c # cs) sub = i + int 0 \<and> prefix sub (drop 0 (c # cs))"
      by simp
    then show ?thesis by blast
  next
    case False
    with Cons.prems have "str_find_from (i + 1) cs sub \<noteq> - 1" "0 \<le> i + 1" by simp_all
    from Cons.IH[OF this] obtain n where
      "str_find_from (i + 1) cs sub = i + 1 + int n" "prefix sub (drop n cs)" by blast
    with False have "str_find_from i (c # cs) sub = i + int (Suc n) \<and>
                     prefix sub (drop (Suc n) (c # cs))" by simp
    then show ?thesis by blast
  qed
qed

lemma str_find_same_offset:
  assumes "str_find s p = str_find s q" "str_find s p \<noteq> - 1" "length p = length q"
  shows "p = q"
proof -
  from assms(2) obtain n where n: "str_find s p = int n" "prefix p (drop n s)"
    using str_find_from_found[of 0 s p] by (auto simp: str_find_def)
  from assms(1,2) obtain m where m: "str_find s q = int m" "prefix q (drop m s)"
    using str_find_from_found[of 0 s q] by (auto simp: str_find_def)
  from n m assms(1) have "n = m" by simp
  with n(2) m(2) assms(3) show ?thesis
    by (auto simp: prefix_def append_eq_append_conv)
qed

lemma length_lower: "length (lower p) = length p"
  by (simp add: lower_def)

lemma single_sample_step:
  assumes inv: "single_sample_buckets content seen st"
    and new: "biased_phrase bias \<notin> seen"
  shows "single_sample_buckets content (insert (biased_phrase bias) seen)
           (record_bias content st bias)"
proof -
  from inv have grown:
    "single_sample_buckets content (insert (biased_phrase bias) seen) st"
    by (fastforce simp: single_sample_buckets_def)
  show ?thesis
  proof (cases content bias st rule: record_bias_cases)
    case absent
    with grown show ?thesis by simp
  next
    case fresh
    from grown fresh(1) show ?thesis
      unfolding fresh(3) single_sample_buckets_def
      by (auto simp: new_bucket_def)
  next
    case (replace b xs ys)
    from grown replace(1) show ?thesis
      unfolding replace(5) replace(2) single_sample_buckets_def
      by (auto simp: new_bucket_def)
  next
    case (join b xs ys)
    from inv join(2) have b:
      "lower (biased_phrase bias) = lower (bias_phrase b)"
      "index b = str_find content (bias_phrase b)" "bias_phrase b \<in> seen"
      by (auto simp: single_sample_buckets_def)
    from b(1) have "length (biased_phrase bias) = length (bias_phrase b)"
      using length_lower[of "biased_phrase bias"] length_lower[of "bias_phrase b"] by simp
    with b(2) join(1,4) have "biased_phrase bias = bias_phrase b"
      by (intro str_find_same_offset[of content]) simp_all
    with b(3) new show ?thesis by simp
  qed
qed

lemma single_sample_fold:
  "single_sample_buckets content seen st \<Longrightarrow>
   distinct (map biased_phrase biases) \<Longrightarrow>
   set (map biased_phrase biases) \<inter> seen = {} \<Longrightarrow>
   single_sample_buckets content (seen \<union> set (map biased_phrase biases))
     (foldl (record_bias content) st biases)"
proof (induction biases arbitrary: seen st)
  case Nil
  then show ?case by simp
next
  case (Cons bias biases)
  from Cons.prems have n: "biased_phrase bias \<notin> seen" by auto
  have "single_sample_buckets content
          (insert (biased_phrase bias) seen \<union> set (map biased_phrase biases))
          (foldl (record_bias content) (record_bias content st bias) biases)"
  proof (rule Cons.IH)
    show "single_sample_buckets content (insert (biased_phrase bias) seen)
            (record_bias content st bias)"
      using single_sample_step[OF Cons.prems(1) n] .
    show "distinct (map biased_phrase biases)" using Cons.prems(2) by simp
    show "set (map biased_phrase biases) \<inter> insert (biased_phrase bias) seen = {}"
      using Cons.prems(2,3) by auto
  qed
  then show ?case by simp
qed

lemma run_samples_append:
  "run_samples orc content st (xs @ ys) =
     (case run_samples orc content st xs of
        Inl e \<Rightarrow> Inl e
      | Inr st' \<Rightarrow> run_samples orc content st' ys)"
  by (induction xs arbitrary: st) (simp_all split: sum.splits)

lemma identical_samples_run:
  assumes same: "\<forall>i<n. \<exists>a. orc i content = Inr (Some a) \<and> detected_biases a = [f]"
    and found: "str_find content (biased_phrase f) \<noteq> - 1"
  shows "\<exists>st. run_samples orc content analyzer_init [0 ..< n] = Inr st \<and>
              found_instances st = map (\<lambda>i. \<lparr> bias_id = int i, bias_instance = f \<rparr>) [0 ..< n] \<and>
              bias_index st = int n \<and>
              bias_phrase_heatmap st =
                (if n = 0 then []
                 else [(lower (biased_phrase f),
                        \<lparr> index = str_find content (biased_phrase f),
                          occurrence_count = int n,
                          bias_phrase = biased_phrase f,
                          bias_instances = map int [0 ..< n] \<rparr>)])"
  using same
proof (induction n)
  case 0
  show ?case by (simp add: analyzer_init_def)
next
  case (Suc n)
  from Suc.prems have "\<forall>i<n. \<exists>a. orc i content = Inr (Some a) \<and> detected_biases a = [f]"
    by simp
  from Suc.IH[OF this] obtain st where st:
    "run_samples orc content analyzer_init [0 ..< n] = Inr st"
    "found_instances st = map (\<lambda>i. \<lparr> bias_id = int i, bias_instance = f \<rparr>) [0 ..< n]"
    "bias_index st = int n"
    "bias_phrase_heatmap st =
       (if n = 0 then []
        else [(lower (biased_phrase f),
               \<lparr> index = str_find content (biased_phrase f), occurrence_count = int n,
                 bias_phrase = biased_phrase f, bias_instances = map int [0 ..< n] \<rparr>)])"
    by blast
  from Suc.prems obtain a where a: "orc n content = Inr (Some a)" "detected_biases a = [f]"
    by blast
  let ?st = "record_bias content (st \<lparr> analyses := analyses st @ [Some a] \<rparr>) f"
  have step: "run_sample orc content st n = Inr ?st"
    using a by (simp add: run_sample_def)
  have run: "run_samples orc content analyzer_init [0 ..< Suc n] = Inr ?st"
    using st(1) step by (simp add: run_samples_append)
  have "found_instances ?st = map (\<lambda>i. \<lparr> bias_id = int i, bias_instance = f \<rparr>) [0 ..< Suc n]"
    using found st(2,3) by (simp add: record_bias_def Let_def)
  moreover have "bias_index ?st = int (Suc n)"
    using found st(3) by (simp add: record_bias_def Let_def)
  moreover have "bias_phrase_heatmap ?st =
       [(lower (biased_phrase f),
         \<lparr> index = str_find content (biased_phrase f), occurrence_count = int (Suc n),
           bias_phrase = biased_phrase f, bias_instances = map int [0 ..< Suc n] \<rparr>)]"
    using found st(3,4)
    by (cases "n = 0") (simp_all add: record_bias_def Let_def new_bucket_def join_bucket_def)
  ultimately show ?case using run by simp
qed

text \<open>
  C4, as stated, fails in its first half: a single sample may report the same phrase
  twice, and the second report joins the bucket of the first. With one sample that
  reports \<open>bad\<close> twice on \<open>a bad idea\<close>, the only bucket has \<open>occurrence_count = 2\<close>.
\<close>

theorem single_sample_counterexample:
  "\<exists>found.
     analyze_content (\<lambda>i c. reply [''bad'', ''bad'']) ''a bad idea'' 1
     = Inr (found, [(''bad'', \<lparr> index = 2, occurrence_count = 2, bias_phrase = ''bad'',
                               bias_instances = [0, 1] \<rparr>)])"
  by (simp add: analyze_eval)

text \<open>
  C4, amended: for every document and oracle, running the aggregation with
  \<open>sample_count = 1\<close> where the one sample is returned and reports no phrase twice yields
  \<open>occurrence_count = 1\<close> for every bucket of the returned heatmap; and running it with
  \<open>sample_count = N\<close>, \<open>N \<ge> 1\<close>, where every sample returns the identical single finding,
  which resolves, yields exactly one bucket, with \<open>occurrence_count = N\<close> (and the
  contribution ids \<open>0, \<dots>, N - 1\<close>).
\<close>

theorem aggregation_dedup:
  "(orc 0 content = Inr (Some a) \<and> distinct (map biased_phrase (detected_biases a)) \<longrightarrow>
      (\<exists>found heatmap.
         analyze_content orc content 1 = Inr (found, heatmap) \<and>
         (\<forall>(key, b) \<in> set heatmap. occurrence_count b = 1))) \<and>
   (0 < N \<and> (\<forall>i < nat N. \<exists>a. orc' i content = Inr (Some a) \<and> detected_biases a = [f]) \<and>
    str_find content (biased_phrase f) \<noteq> - 1 \<longrightarrow>
      (\<exists>found.
         analyze_content orc' content N
         = Inr (found, [(lower (biased_phrase f),
                         \<lparr> index = str_find content (biased_phrase f), occurrence_count = N,
                           bias_phrase = biased_phrase f,
                           bias_instances = map int [0 ..< nat N] \<rparr>)])))"
proof (intro conjI impI)
  assume h: "orc 0 content = Inr (Some a) \<and> distinct (map biased_phrase (detected_biases a))"
  let ?st = "foldl (record_bias content) (analyzer_init \<lparr> analyses := [Some a] \<rparr>)
               (detected_biases a)"
  have "single_sample_buckets content ({} \<union> set (map biased_phrase (detected_biases a))) ?st"
    using h by (intro single_sample_fold) (simp_all add: single_sample_buckets_def analyzer_init_def)
  then have "\<forall>(key, b) \<in> set (bias_phrase_heatmap ?st). occurrence_count b = 1"
    by (fastforce simp: single_sample_buckets_def)
  moreover have "analyze_content orc content 1 = Inr (found_instances ?st, bias_phrase_heatmap ?st)"
    using h by (simp add: analyze_content_def run_sample_def analyzer_init_def)
  ultimately show "\<exists>found heatmap.
         analyze_content orc content 1 = Inr (found, heatmap) \<and>
         (\<forall>(key, b) \<in> set heatmap. occurrence_count b = 1)"
    by blast
next
  assume h: "0 < N \<and> (\<forall>i < nat N. \<exists>a. orc' i content = Inr (Some a) \<and> detected_biases a = [f]) \<and>
    str_find content (biased_phrase f) \<noteq> - 1"
  then have "\<forall>i < nat N. \<exists>a. orc' i content = Inr (Some a) \<and> detected_biases a = [f]"
    and "str_find content (biased_phrase f) \<noteq> - 1"
    by simp_all
  from identical_samples_run[where n = "nat N" and orc = orc' and content = content and f = f, OF this]
  obtain st where st:
    "run_samples orc' content analyzer_init [0 ..< nat N] = Inr st"
    "bias_phrase_heatmap st =
       (if nat N = 0 then []
        else [(lower (biased_phrase f),
               \<lparr> index = str_find content (biased_phrase f), occurrence_count = int (nat N),
                 bias_phrase = biased_phrase f, bias_instances = map int [0 ..< nat N] \<rparr>)])"
    by blast
  from h have "nat N \<noteq> 0" "int (nat N) = N" by simp_all
  with st show "\<exists>found.
         analyze_content orc' content N
         = Inr (found, [(lower (biased_phrase f),
                         \<lparr> index = str_find content (biased_phrase f), occurrence_count = N,
                           bias_phrase = biased_phrase f,
                           bias_instances = map int [0 ..< nat N] \<rparr>)])"
    by (simp add: analyze_content_def)
qed

theorem aggregation_dedup_witness:
  "(\<exists>found heatmap.
      analyze_content (\<lambda>i c. reply [''bad'', ''idea'', ''zzz'']) ''a bad idea'' 1
        = Inr (found, heatmap) \<and>
      length heatmap = 2 \<and> (\<forall>(key, b) \<in> set heatmap. occurrence_count b = 1)) \<and>
   (\<exists>found.
      analyze_content (\<lambda>i c. reply [''bad'']) ''a bad idea'' 3
      = Inr (found, [(''bad'', \<lparr> index = 2, occurrence_count = 3, bias_phrase = ''bad'',
                                bias_instances = [0, 1, 2] \<rparr>)]))"
proof -
  let ?a = "\<lparr> methodology = ''close reading'',
              detected_biases = map finding [''bad'', ''idea'', ''zzz''] \<rparr>"
  note t = aggregation_dedup[where orc = "\<lambda>i c. reply [''bad'', ''idea'', ''zzz'']"
      and content = "''a bad idea''" and a = ?a and N = 3
      and orc' = "\<lambda>i c. reply [''bad'']" and f = "finding ''bad''"]
  have h1: "(\<lambda>i c. reply [''bad'', ''idea'', ''zzz'']) 0 ''a bad idea'' = Inr (Some ?a) \<and>
            distinct (map biased_phrase (detected_biases ?a))"
    by (simp add: reply_def finding_def)
  have h2: "0 < (3::int) \<and>
            (\<forall>i < nat 3. \<exists>a. (\<lambda>i c. reply [''bad'']) i ''a bad idea'' = Inr (Some a) \<and>
                              detected_biases a = [finding ''bad'']) \<and>
            str_find ''a bad idea'' (biased_phrase (finding ''bad'')) \<noteq> - 1"
    by (simp add: reply_def finding_def str_find_def)
  obtain found heatmap where
    e: "analyze_content (\<lambda>i c. reply [''bad'', ''idea'', ''zzz'']) ''a bad idea'' 1
        = Inr (found, heatmap)"
    and l: "length heatmap = 2"
    by (simp add: analyze_eval)
  from t h1 obtain found' heatmap' where
    e': "analyze_content (\<lambda>i c. reply [''bad'', ''idea'', ''zzz'']) ''a bad idea'' 1
         = Inr (found', heatmap')"
    and c: "\<forall>(key, b) \<in> set heatmap'. occurrence_count b = 1"
    by blast
  from e e' have "heatmap' = heatmap" by simp
  with c e l have first: "\<exists>found heatmap.
      analyze_content (\<lambda>i c. reply [''bad'', ''idea'', ''zzz'']) ''a bad idea'' 1
        = Inr (found, heatmap) \<and>
      length heatmap = 2 \<and> (\<forall>(key, b) \<in> set heatmap. occurrence_count b = 1)"
    by (intro exI[of _ found] exI[of _ heatmap]) simp
  from t h2 obtain found3 where
    "analyze_content (\<lambda>i c. reply [''bad'']) ''a bad idea'' 3
     = Inr (found3, [(lower (biased_phrase (finding ''bad'')),
                      \<lparr> index = str_find ''a bad idea'' (biased_phrase (finding ''bad'')),
                        occurrence_count = 3, bias_phrase = biased_phrase (finding ''bad''),
                        bias_instances = map int [0 ..< nat 3] \<rparr>)])"
    by blast
  then have "analyze_content (\<lambda>i c. reply [''bad'']) ''a bad idea'' 3
      = Inr (found3, [(''bad'', \<lparr> index = 2, occurrence_count = 3, bias_phrase = ''bad'',
                                 bias_instances = [0, 1, 2] \<rparr>)])"
    by (simp add: finding_def lower_def lower_char_def isupper_def str_find_def upt_rec)
  with first show ?thesis by blast
qed

section \<open>A failing call of the model ends the run\<close>

lemma run_samples_all_ok:
  "\<forall>i\<in>set js. \<exists>a. orc i content = Inr (Some a) \<Longrightarrow>
   \<exists>st'. run_samples orc content st js = Inr st'"
proof (induction js arbitrary: st)
  case Nil
  then show ?case by simp
next
  case (Cons j js)
  from Cons.prems obtain a where "orc j content = Inr (Some a)" by auto
  then obtain st1 where "run_sample orc content st j = Inr st1"
    by (simp add: run_sample_def)
  moreover from Cons.IH[of st1] Cons.prems obtain st' where
    "run_samples orc content st1 js = Inr st'" by auto
  ultimately show ?case by simp
qed

lemma run_samples_first_failure:
  assumes "j < n" and "\<forall>i<j. \<exists>a. orc i content = Inr (Some a)"
    and "orc j content = Inl e \<or> (orc j content = Inr None \<and> e = AttributeError)"
  shows "run_samples orc content st [0 ..< n] = Inl e"
proof -
  from assms(1) obtain k where k: "n = j + k" "0 < k"
    by (auto simp: less_iff_Suc_add)
  have "[0 ..< j + k] = [0 ..< j] @ [j ..< j + k]"
    by (rule upt_add_eq_append) simp
  with k have split: "[0 ..< n] = [0 ..< j] @ j # [Suc j ..< n]"
    by (simp add: upt_conv_Cons)
  from assms(2) obtain st1 where "run_samples orc content st [0 ..< j] = Inr st1"
    using run_samples_all_ok[of "[0 ..< j]" orc content st] by auto
  moreover from assms(3) have "run_sample orc content st1 j = Inl e"
    by (auto simp: run_sample_def)
  ultimately show ?thesis
    by (simp add: split run_samples_append)
qed

text \<open>
  C8, as stated, fails: \<open>analyze_content\<close> has no \<open>try\<close>, so an exception of the model
  call leaves the loop and the method. When the first of two calls fails and the second
  would report one resolvable phrase, the run ends with the exception of the first call;
  the aggregate of the remaining sample (one finding, as the second run below shows for
  a first sample without findings) is not returned.
\<close>

theorem failed_sample_counterexample:
  "analyze_content failing_first ''a bad idea'' 2 = Inl (OracleError ''timeout'') \<and>
   (\<exists>found heatmap.
      analyze_content (\<lambda>i c. if i = 0 then reply [] else reply [''bad'']) ''a bad idea'' 2
        = Inr (found, heatmap) \<and> length found = 1 \<and> length heatmap = 1)"
  by (simp add: analyze_eval failing_first_def)

text \<open>
  C8, amended: for every aggregation run in which some oracle invocation fails (the call
  raises, or its reply has no parsed analysis), the Aggregator does not retry it and does
  not continue: the run ends at the first failing invocation with that exception, and no
  aggregate is returned, whatever the samples before it found. When every invocation
  succeeds, the run returns its aggregate.
\<close>

theorem failed_sample_aborts_run:
  "(j < nat runs \<and> (\<forall>i<j. \<exists>a. orc i content = Inr (Some a)) \<and>
    (orc j content = Inl e \<or> (orc j content = Inr None \<and> e = AttributeError)) \<longrightarrow>
      analyze_content orc content runs = Inl e) \<and>
   ((\<forall>i < nat runs. \<exists>a. orc i content = Inr (Some a)) \<longrightarrow>
      (\<exists>found heatmap. analyze_content orc content runs = Inr (found, heatmap)))"
proof (intro conjI impI)
  assume "j < nat runs \<and> (\<forall>i<j. \<exists>a. orc i content = Inr (Some a)) \<and>
    (orc j content = Inl e \<or> (orc j content = Inr None \<and> e = AttributeError))"
  then have "run_samples orc content analyzer_init [0 ..< nat runs] = Inl e"
    by (intro run_samples_first_failure[of j]) simp_all
  then show "analyze_content orc content runs = Inl e"
    by (simp add: analyze_content_def)
next
  assume "\<forall>i < nat runs. \<exists>a. orc i content = Inr (Some a)"
  then obtain st where "run_samples orc content analyzer_init [0 ..< nat runs] = Inr st"
    using run_samples_all_ok[of "[0 ..< nat runs]" orc content analyzer_init] by auto
  then show "\<exists>found heatmap. analyze_content orc content runs = Inr (found, heatmap)"
    by (simp add: analyze_content_def)
qed

theorem failed_sample_aborts_run_witness:
  "analyze_content (\<lambda>i c. if i = 1 then Inr None else reply [''bad'']) ''a bad idea'' 3
     = Inl AttributeError \<and>
   (\<exists>found heatmap.
      analyze_content (\<lambda>i c. reply [''bad'']) ''a bad idea'' 3 = Inr (found, heatmap))"
proof -
  note t1 = failed_sample_aborts_run[where j = 1 and runs = 3
      and orc = "\<lambda>i c. if i = 1 then Inr None else reply [''bad'']"
      and content = "''a bad idea''" and e = AttributeError]
  note t2 = failed_sample_aborts_run[where j = 0 and runs = 3
      and orc = "\<lambda>i c. reply [''bad'']" and content = "''a bad idea''" and e = AttributeError]
  have h1: "(1::nat) < nat 3 \<and>
     (\<forall>i<1. \<exists>a. (\<lambda>i c. if i = (1::nat) then Inr None else reply [''bad'']) i ''a bad idea''
                     = Inr (Some a)) \<and>
     ((\<lambda>i c. if i = (1::nat) then Inr None else reply [''bad'']) 1 ''a bad idea'' = Inl AttributeError \<or>
      ((\<lambda>i c. if i = (1::nat) then Inr None else reply [''bad'']) 1 ''a bad idea'' = Inr None \<and>
       AttributeError = AttributeError))"
    by (simp add: reply_def)
  have h2: "\<forall>i < nat 3. \<exists>a. (\<lambda>i c. reply [''bad'']) i ''a bad idea'' = Inr (Some a)"
    by (simp add: reply_def)
  from t1 h1 have "analyze_content (\<lambda>i c. if i = 1 then Inr None else reply [''bad''])
                     ''a bad idea'' 3 = Inl AttributeError"
    by blast
  moreover from t2 h2 have "\<exists>found heatmap.
      analyze_content (\<lambda>i c. reply [''bad'']) ''a bad idea'' 3 = Inr (found, heatmap)"
    by blast
  ultimately show ?thesis by blast
qed

section \<open>The corrections are applied by the model, not by the program\<close>

text \<open>
  C3, as stated, fails: \<open>create_final_content\<close> resolves no span and compares no two edits.
  It sends the corrections and the content to the model and returns the parsed reply.
  For \<open>The conflict began in 1948.\<close> and the two corrections that remove \<open>began in\<close>
  (characters 13 to 21) and \<open>in 1948\<close> (characters 19 to 26), whose spans intersect, a
  model that answers with a rewritten sentence makes the method return that sentence:
  the operation does not fail and does not return the original document.
\<close>

theorem overlapping_edits_counterexample:
  "spec_resolved_span ''The conflict began in 1948.''
     (suggested_correction (correction ''began in'' ''started in'')) = Some (13, 21) \<and>
   spec_resolved_span ''The conflict began in 1948.''
     (suggested_correction (correction ''in 1948'' ''around 1948'')) = Some (19, 26) \<and>
   spec_batch_overlaps ''The conflict began in 1948.'' overlapping_batch \<and>
   create_final_content
     (\<lambda>messages. Inr (Some \<lparr> final_content = ''The conflict started around 1948.'' \<rparr>))
     (\<lambda>corrections. ''[two corrections]'')
     \<lparr> system_prompt = ''You are an Investigator'', chat_history = [] \<rparr>
     overlapping_batch ''The conflict began in 1948.''
   = Inr (Some \<lparr> final_content = ''The conflict started around 1948.'' \<rparr>)"
  by (simp add: spec_batch_overlaps_def overlapping_batch_def spec_resolved_span_def
      spec_spans_overlap_def correction_def str_find_def create_final_content_def)

text \<open>
  C3, amended: for every document and every edit batch in which some two edits' resolved
  spans overlap, the apply operation does not reject the batch. It makes one call of the
  external model, on the system prompt, the chat history and a last user message that
  quotes the corrections and the document, and returns the model's parsed reply as it is:
  it fails exactly when that call fails, and when the model replies (as it does when it
  answers every request) the reply is returned although the spans overlap. The call, its
  messages and the failure condition are the same for a batch without overlap.
\<close>

theorem overlapping_batch_not_rejected:
  "create_final_content model render self passage_analysis content
     = model (final_messages render self passage_analysis content) \<and>
   length (final_messages render self passage_analysis content) = length (chat_history self) + 2 \<and>
   last (final_messages render self passage_analysis content)
     = \<lparr> msg_role = ''user'',
         msg_content = final_prompt (render (passage_bias_instance passage_analysis)) content \<rparr> \<and>
   ((create_final_content model render self passage_analysis content = Inl e)
     = (model (final_messages render self passage_analysis content) = Inl e)) \<and>
   (spec_batch_overlaps content passage_analysis \<and>
    model (final_messages render self passage_analysis content) = Inr answer \<longrightarrow>
      create_final_content model render self passage_analysis content = Inr answer) \<and>
   (spec_batch_overlaps content passage_analysis \<and> (\<forall>messages. \<exists>r. model messages = Inr r) \<longrightarrow>
      (\<exists>r. create_final_content model render self passage_analysis content = Inr r))"
proof (intro conjI impI)
  show call: "create_final_content model render self passage_analysis content
              = model (final_messages render self passage_analysis content)"
    by (simp add: create_final_content_def)
  show "length (final_messages render self passage_analysis content)
        = length (chat_history self) + 2"
    by (simp add: final_messages_def)
  show "last (final_messages render self passage_analysis content)
        = \<lparr> msg_role = ''user'',
            msg_content = final_prompt (render (passage_bias_instance passage_analysis)) content \<rparr>"
    by (simp add: final_messages_def)
  show "(create_final_content model render self passage_analysis content = Inl e)
        = (model (final_messages render self passage_analysis content) = Inl e)"
    by (simp add: call)
  show "create_final_content model render self passage_analysis content = Inr answer"
    if "spec_batch_overlaps content passage_analysis \<and>
        model (final_messages render self passage_analysis content) = Inr answer"
    using that by (simp add: call)
  show "\<exists>r. create_final_content model render self passage_analysis content = Inr r"
    if "spec_batch_overlaps content passage_analysis \<and> (\<forall>messages. \<exists>r. model messages = Inr r)"
    using that by (simp add: call)
qed

theorem overlapping_batch_not_rejected_witness:
  "spec_batch_overlaps ''The conflict began in 1948.'' overlapping_batch \<and>
   create_final_content
     (\<lambda>messages. Inr (Some \<lparr> final_content = msg_content (last messages) \<rparr>))
     (\<lambda>corrections. ''[two corrections]'')
     \<lparr> system_prompt = ''You are an Investigator'', chat_history = [''earlier''] \<rparr>
     overlapping_batch ''The conflict began in 1948.''
   = Inr (Some \<lparr> final_content =
                   final_prompt ''[two corrections]'' ''The conflict began in 1948.'' \<rparr>)"
proof -
  let ?model = "\<lambda>messages. Inr (Some \<lparr> final_content = msg_content (last messages) \<rparr>)
                  :: error + FinalContent option"
  let ?render = "\<lambda>corrections :: ExpertBiasInstance list. ''[two corrections]''"
  let ?self = "\<lparr> system_prompt = ''You are an Investigator'', chat_history = [''earlier''] \<rparr>"
  let ?doc = "''The conflict began in 1948.''"
  let ?answer = "Some \<lparr> final_content = final_prompt ''[two corrections]'' ?doc \<rparr>"
  note t = overlapping_batch_not_rejected[where model = ?model and render = ?render
      and self = ?self and passage_analysis = overlapping_batch and content = ?doc
      and answer = ?answer]
  have o: "spec_batch_overlaps ?doc overlapping_batch"
    by (simp add: spec_batch_overlaps_def overlapping_batch_def spec_resolved_span_def
        spec_spans_overlap_def correction_def str_find_def)
  from t have l: "last (final_messages ?render ?self overlapping_batch ?doc)
        = \<lparr> msg_role = ''user'',
            msg_content = final_prompt (?render (passage_bias_instance overlapping_batch)) ?doc \<rparr>"
    by blast
  then have m: "?model (final_messages ?render ?self overlapping_batch ?doc) = Inr ?answer"
    by simp
  from t o m have "create_final_content ?model ?render ?self overlapping_batch ?doc = Inr ?answer"
    by blast
  with o show ?thesis by simp
qed

end
